theory Spec2Isabelle
  imports Main "HOL-Library.Multiset" "HOL-Library.AList"
begin

section \<open>Python values used by \<open>fetch_icons.py\<close>\<close>

text \<open>
  A Python \<open>str\<close> is a sequence of Unicode code points and \<open>len\<close> counts code points,
  so a string is a list of code points (natural numbers), not a list of bytes.
  \<open>ustr\<close> turns an ASCII literal of the source into such a list.
\<close>

type_synonym ustring = "nat list"

definition ustr :: "string \<Rightarrow> ustring" where
  "ustr s = map of_char s"

text \<open>
  Exceptions are values. Only the distinctions the source makes are kept: the class
  (\<open>except OSError\<close> against \<open>except Exception\<close>) and the message, which the source
  formats into its result strings with \<open>f'...{e}'\<close>.
\<close>

datatype pyexn =
    FileNotFoundError ustring
  | ValueError ustring
  | AttributeError ustring
  | OSError ustring
  | OtherException ustring

fun exn_str :: "pyexn \<Rightarrow> ustring" where
  "exn_str (FileNotFoundError m) = m"
| "exn_str (ValueError m) = m"
| "exn_str (AttributeError m) = m"
| "exn_str (OSError m) = m"
| "exn_str (OtherException m) = m"

text \<open>\<open>FileNotFoundError\<close> is a subclass of \<open>OSError\<close>; the others are not.\<close>

fun is_OSError :: "pyexn \<Rightarrow> bool" where
  "is_OSError (FileNotFoundError m) = True"
| "is_OSError (OSError m) = True"
| "is_OSError (ValueError m) = False"
| "is_OSError (AttributeError m) = False"
| "is_OSError (OtherException m) = False"

text \<open>What \<open>urlparse(url)\<close> yields, as far as the source reads it: \<open>.path\<close> and \<open>.hostname\<close>.\<close>

record parsed_url =
  path :: ustring
  hostname :: "ustring option"

text \<open>
  The library functions the source calls but does not define are parameters:
  \<^item> \<open>isalnum_hi\<close>, \<open>isspace_hi\<close>: the Unicode character database for code points from 128
    on (\<open>str.isalnum\<close>, \<open>str.isspace\<close>, which \<open>\w\<close>, \<open>\s\<close> and \<open>str.strip\<close> consult);
    below 128 the classes are written out;
  \<^item> \<open>str_lower\<close>: \<open>str.lower\<close>;
  \<^item> \<open>unquote\<close>: \<open>urllib.parse.unquote\<close>;
  \<^item> \<open>urlparse\<close>: \<open>urllib.parse.urlparse\<close>, which raises \<open>ValueError\<close> on some inputs;
  \<^item> \<open>guess_type\<close>: the first component of \<open>mimetypes.guess_type\<close>, which parses
    its argument with \<open>urlparse\<close> and so raises \<open>ValueError\<close> on some inputs as well.
\<close>

record pylib =
  isalnum_hi :: "nat \<Rightarrow> bool"
  isspace_hi :: "nat \<Rightarrow> bool"
  str_lower :: "ustring \<Rightarrow> ustring"
  unquote :: "ustring \<Rightarrow> ustring"
  urlparse :: "ustring \<Rightarrow> pyexn + parsed_url"
  guess_type :: "ustring \<Rightarrow> pyexn + ustring option"

definition ascii_isalnum :: "nat \<Rightarrow> bool" where
  "ascii_isalnum c = ((48 \<le> c \<and> c \<le> 57) \<or> (65 \<le> c \<and> c \<le> 90) \<or> (97 \<le> c \<and> c \<le> 122))"

text \<open>ASCII whitespace of Python: TAB, LF, VT, FF, CR, FS, GS, RS, US and SPACE.\<close>

definition ascii_isspace :: "nat \<Rightarrow> bool" where
  "ascii_isspace c = ((9 \<le> c \<and> c \<le> 13) \<or> (28 \<le> c \<and> c \<le> 32))"

definition isalnum :: "pylib \<Rightarrow> nat \<Rightarrow> bool" where
  "isalnum L c = (if c < 128 then ascii_isalnum c else isalnum_hi L c)"

definition isspace :: "pylib \<Rightarrow> nat \<Rightarrow> bool" where
  "isspace L c = (if c < 128 then ascii_isspace c else isspace_hi L c)"

text \<open>\<open>\w\<close> of a \<open>str\<close> pattern: alphanumeric in Unicode, or the underscore.\<close>

definition is_word :: "pylib \<Rightarrow> nat \<Rightarrow> bool" where
  "is_word L c = (isalnum L c \<or> c = 95)"

text \<open>Unicode general category \<open>Cc\<close>: C0 controls, DEL and C1 controls.\<close>

definition is_control :: "nat \<Rightarrow> bool" where
  "is_control c = (c < 32 \<or> (127 \<le> c \<and> c < 160))"

text \<open>\<open>s.strip()\<close>: whitespace removed at both ends.\<close>

definition strip :: "pylib \<Rightarrow> ustring \<Rightarrow> ustring" where
  "strip L s = rev (dropWhile (isspace L) (rev (dropWhile (isspace L) s)))"

text \<open>\<open>s.replace(a, b)\<close> for one-character \<open>a\<close> and \<open>b\<close>.\<close>

definition replace_char :: "nat \<Rightarrow> nat \<Rightarrow> ustring \<Rightarrow> ustring" where
  "replace_char a b s = map (\<lambda>c. if c = a then b else c) s"

text \<open>\<open>re.sub(r'\s+', '_', s)\<close>: every maximal run of whitespace becomes one underscore.\<close>

function sub_ws_runs :: "(nat \<Rightarrow> bool) \<Rightarrow> ustring \<Rightarrow> ustring" where
  "sub_ws_runs sp [] = []"
| "sub_ws_runs sp (c # cs) =
     (if sp c then 95 # sub_ws_runs sp (dropWhile sp cs) else c # sub_ws_runs sp cs)"
  by pat_completeness auto
termination
  by (relation "measure (\<lambda>(sp, cs). length cs)")
     (auto simp: le_imp_less_Suc length_dropWhile_le)

text \<open>\<open>s[:n]\<close> for an \<open>int\<close> \<open>n\<close>: a negative bound counts from the end.\<close>

definition slice_upto :: "int \<Rightarrow> ustring \<Rightarrow> ustring" where
  "slice_upto n s = (if 0 \<le> n then take (nat n) s else take (length s - nat (- n)) s)"

section \<open>Filename sanitizer\<close>

text \<open>The class \<open>[^\w\-\._]\<close> is deleted: what stays is a word character, hyphen, dot or underscore.\<close>

definition keep_unicode :: "pylib \<Rightarrow> nat \<Rightarrow> bool" where
  "keep_unicode L c = (is_word L c \<or> c = 45 \<or> c = 46 \<or> c = 95)"

text \<open>
  Lines 66 to 74 of the source: unquote, strip, replace both separators, collapse
  whitespace, delete everything outside the kept class.
\<close>

definition clean_unicode :: "pylib \<Rightarrow> ustring \<Rightarrow> ustring" where
  "clean_unicode L name =
     (let n1 = strip L (unquote L name);
          n2 = replace_char 92 95 (replace_char 47 95 n1);
          n3 = sub_ws_runs (isspace L) n2
      in filter (keep_unicode L) n3)"

definition safe_filename_unicode :: "pylib \<Rightarrow> ustring \<Rightarrow> int \<Rightarrow> ustring" where
  "safe_filename_unicode L name max_len =
     (if name = [] then ustr ''unnamed''
      else
        let n4 = clean_unicode L name;
            n5 = (if int (length n4) > max_len then slice_upto max_len n4 else n4)
        in if n5 = [] then ustr ''file'' else n5)"

text \<open>The class \<open>[^A-Za-z0-9\-\._]\<close> is deleted.\<close>

definition keep_ascii :: "nat \<Rightarrow> bool" where
  "keep_ascii c = (ascii_isalnum c \<or> c = 45 \<or> c = 46 \<or> c = 95)"

text \<open>
  \<open>name.encode('ascii', errors='ignore').decode('ascii')\<close> drops the code points from 128
  on. No step of the \<open>try\<close> body raises on a \<open>str\<close>, so the \<open>except\<close> branch (which
  returns \<open>'file'\<close> as well) has no input that reaches it.
\<close>

definition ascii_fallback_name :: "pylib \<Rightarrow> ustring \<Rightarrow> int \<Rightarrow> ustring" where
  "ascii_fallback_name L name max_len =
     (let a0 = filter (\<lambda>c. c < 128) name;
          a1 = filter keep_ascii a0;
          a2 = strip L a1;
          a3 = (if a2 = [] then ustr ''file'' else a2)
      in if int (length a3) > max_len then slice_upto max_len a3 else a3)"

text \<open>
  What is assumed of the Unicode tables: no code point is both alphanumeric and
  whitespace, and the C1 control characters are not alphanumeric.
\<close>

definition unicode_ok :: "pylib \<Rightarrow> bool" where
  "unicode_ok L =
     ((\<forall>c. 128 \<le> c \<longrightarrow> \<not> (isalnum_hi L c \<and> isspace_hi L c)) \<and>
      (\<forall>c. 128 \<le> c \<and> c < 160 \<longrightarrow> \<not> isalnum_hi L c))"

text \<open>What is assumed of \<open>unquote\<close>: its first branch, \<open>if '%' not in string: return string\<close>.\<close>

definition unquote_ok :: "pylib \<Rightarrow> bool" where
  "unquote_ok L = (\<forall>s. 37 \<notin> set s \<longrightarrow> unquote L s = s)"

section \<open>Extension resolver\<close>

text \<open>The dictionary \<open>CONTENT_TYPE_EXT\<close>, in the order of the source.\<close>

definition CONTENT_TYPE_EXT :: "(ustring \<times> ustring) list" where
  "CONTENT_TYPE_EXT =
     [(ustr ''image/png'', ustr ''.png''),
      (ustr ''image/x-icon'', ustr ''.ico''),
      (ustr ''image/vnd.microsoft.icon'', ustr ''.ico''),
      (ustr ''image/vnd.microsoft.icon; charset=binary'', ustr ''.ico''),
      (ustr ''image/jpeg'', ustr ''.jpg''),
      (ustr ''image/jpg'', ustr ''.jpg''),
      (ustr ''image/svg+xml'', ustr ''.svg''),
      (ustr ''image/webp'', ustr ''.webp''),
      (ustr ''image/gif'', ustr ''.gif''),
      (ustr ''image/vnd.microsoft.icon; charset=utf-8'', ustr ''.ico'')]"

text \<open>\<open>s.rfind(c)\<close>: the last index of \<open>c\<close>, or \<open>-1\<close>.\<close>

definition rfind :: "nat \<Rightarrow> ustring \<Rightarrow> int" where
  "rfind c s = int (length (dropWhile (\<lambda>x. x \<noteq> c) (rev s))) - 1"

text \<open>
  \<open>os.path.splitext\<close> on POSIX (separator \<open>/\<close>, no alternative separator): the
  extension starts at the last dot, provided that dot comes after the last separator and
  some character between the separator and the dot is not a dot (the loop that skips
  leading dots).
\<close>

definition splitext :: "ustring \<Rightarrow> ustring \<times> ustring" where
  "splitext p =
     (let sepIndex = rfind 47 p;
          dotIndex = rfind 46 p
      in if dotIndex > sepIndex \<and>
            list_ex (\<lambda>c. c \<noteq> 46) (take (nat dotIndex - nat (sepIndex + 1)) (drop (nat (sepIndex + 1)) p))
         then (take (nat dotIndex) p, drop (nat dotIndex) p)
         else (p, []))"

definition ext_from_url :: "pylib \<Rightarrow> ustring \<Rightarrow> ustring" where
  "ext_from_url L url =
     (case urlparse L url of
        Inl e \<Rightarrow> []
      | Inr u \<Rightarrow> str_lower L (snd (splitext (path u))))"

text \<open>
  \<open>choose_extension(resp, url)\<close> reads of \<open>resp\<close> only the \<open>Content-Type\<close> header,
  here \<open>hdr\<close> (\<open>None\<close> when the header is absent, for which \<open>get\<close> yields \<open>''\<close>).
  \<open>split(';')[0]\<close> is the text before the first semicolon.
\<close>

definition normalize_content_type :: "pylib \<Rightarrow> ustring option \<Rightarrow> ustring" where
  "normalize_content_type L hdr =
     str_lower L (strip L (takeWhile (\<lambda>c. c \<noteq> 59) (case hdr of None \<Rightarrow> [] | Some h \<Rightarrow> h)))"

text \<open>
  The result is \<open>Inl\<close> when an exception leaves the function: \<open>ext_from_url\<close> catches
  what \<open>urlparse\<close> raises, the call of \<open>mimetypes.guess_type\<close> at line 122 is not
  guarded.
\<close>

definition choose_extension :: "pylib \<Rightarrow> ustring option \<Rightarrow> ustring \<Rightarrow> pyexn + ustring" where
  "choose_extension L hdr url =
     (let ct = normalize_content_type L hdr in
      case map_of CONTENT_TYPE_EXT ct of
        Some e \<Rightarrow> Inr e
      | None \<Rightarrow>
          let ext = ext_from_url L url in
          if ext \<noteq> [] \<and> length ext \<le> 5 then Inr ext
          else
            (case guess_type L url of
               Inl e \<Rightarrow> Inl e
             | Inr None \<Rightarrow> Inr (ustr ''.png'')
             | Inr (Some guessed) \<Rightarrow>
                 if guessed \<noteq> [] then
                   (case map_of CONTENT_TYPE_EXT guessed of
                      Some e \<Rightarrow> Inr e
                    | None \<Rightarrow> Inr (ustr ''.png''))
                 else Inr (ustr ''.png'')))"

text \<open>
  The extension of the URL's path component as the specification words it, with no
  change of case; the source's \<open>ext_from_url\<close> lower-cases it.
\<close>

definition spec_url_extension :: "pylib \<Rightarrow> ustring \<Rightarrow> ustring" where
  "spec_url_extension L url =
     (case urlparse L url of
        Inl e \<Rightarrow> []
      | Inr u \<Rightarrow> snd (splitext (path u)))"

text \<open>
  What is assumed of \<open>str.lower\<close>: the empty string stays empty and a leading dot stays
  a leading dot.
\<close>

definition lower_ok :: "pylib \<Rightarrow> bool" where
  "lower_ok L = (str_lower L [] = [] \<and> (\<forall>s. \<exists>t. str_lower L (46 # s) = 46 # t))"

section \<open>Bookmark records\<close>

text \<open>
  What \<open>json.load\<close> returns. A JSON object is a Python \<open>dict\<close>, which keeps the order
  of its keys: an association list. Numbers are kept as integers; the source looks at
  a number only through its truth value.
\<close>

datatype json =
    JNull
  | JBool bool
  | JNum int
  | JStr ustring
  | JArr "json list"
  | JObj "(ustring \<times> json) list"

fun truthy :: "json \<Rightarrow> bool" where
  "truthy JNull = False"
| "truthy (JBool b) = b"
| "truthy (JNum n) = (n \<noteq> 0)"
| "truthy (JStr s) = (s \<noteq> [])"
| "truthy (JArr xs) = (xs \<noteq> [])"
| "truthy (JObj kvs) = (kvs \<noteq> [])"

fun type_name :: "json \<Rightarrow> ustring" where
  "type_name JNull = ustr ''NoneType''"
| "type_name (JBool b) = ustr ''bool''"
| "type_name (JNum n) = ustr ''int''"
| "type_name (JStr s) = ustr ''str''"
| "type_name (JArr xs) = ustr ''list''"
| "type_name (JObj kvs) = ustr ''dict''"

definition no_attribute :: "json \<Rightarrow> ustring \<Rightarrow> pyexn" where
  "no_attribute v a =
     AttributeError ([39] @ type_name v @ [39] @ ustr '' object has no attribute '' @ [39] @ a @ [39])"

text \<open>
  \<open>(item.get(k) or '').strip()\<close>: \<open>get\<close> exists on a \<open>dict\<close> only; a missing key and
  every false value give \<open>''\<close>; a true value that is not a \<open>str\<close> has no \<open>strip\<close>.
\<close>

definition get_stripped :: "pylib \<Rightarrow> json \<Rightarrow> ustring \<Rightarrow> pyexn + ustring" where
  "get_stripped L item k =
     (case item of
        JObj kvs \<Rightarrow>
          (case map_of kvs k of
             None \<Rightarrow> Inr []
           | Some v \<Rightarrow>
               if truthy v then
                 (case v of
                    JStr s \<Rightarrow> Inr (strip L s)
                  | _ \<Rightarrow> Inl (no_attribute v (ustr ''strip'')))
               else Inr [])
      | _ \<Rightarrow> Inl (no_attribute item (ustr ''get'')))"

text \<open>\<open>item[k]\<close> as a lookup, for stating what a record holds.\<close>

definition field :: "json \<Rightarrow> ustring \<Rightarrow> json option" where
  "field item k = (case item of JObj kvs \<Rightarrow> map_of kvs k | _ \<Rightarrow> None)"

definition field_names :: "json \<Rightarrow> ustring list" where
  "field_names item = (case item of JObj kvs \<Rightarrow> map fst kvs | _ \<Rightarrow> [])"

section \<open>Collision-safe writer and fetch task\<close>

text \<open>\<open>str(n)\<close> for a natural number: its decimal digits.\<close>

fun dec :: "nat \<Rightarrow> ustring" where
  "dec n = (if n < 10 then [48 + n] else dec (n div 10) @ [48 + n mod 10])"

declare dec.simps [simp del]

text \<open>
  The world a fetch task acts on:
  \<^item> \<open>links\<close>: the symbolic links of the output directory, each with the path it
    resolves to;
  \<^item> \<open>store\<close>: what exists, by resolved path, with its content;
  \<^item> \<open>requests\<close>: the URLs requested so far;
  \<^item> \<open>opened\<close>: the names passed to \<open>open(..., 'wb')\<close> so far.
  A name of the output directory that is no link resolves to \<open>outdir/name\<close>.
\<close>

record world =
  links :: "(ustring \<times> ustring) list"
  store :: "(ustring \<times> nat list) list"
  requests :: "ustring list"
  opened :: "ustring list"

record response =
  status_code :: nat
  content_type :: "ustring option"
  chunks :: "nat list list"

text \<open>
  The body of a response fetched with \<open>stream=True\<close> is read once: \<open>pending\<close> are the
  chunks not read yet, \<open>consumed\<close> is the flag \<open>_content_consumed\<close>, which
  \<open>iter_content\<close> sets when an iteration has run to its end and tests when it is called.
\<close>

record body_stream =
  pending :: "nat list list"
  consumed :: bool

text \<open>
  What one \<open>with open(path, 'wb') as f: for chunk in resp.iter_content(...): ...\<close> meets:
  \<^item> \<open>Completed\<close>: nothing fails;
  \<^item> \<open>OpenError e\<close>: \<open>open\<close> raises \<open>e\<close>; nothing is created and nothing is read;
  \<^item> \<open>LoopError e r left\<close>: \<open>e\<close> is raised inside the loop (by the read of a chunk or by
    \<open>f.write\<close>) when \<open>r\<close> chunks have been taken from the stream; the file is left with
    the bytes \<open>left\<close>;
  \<^item> \<open>CloseError e left\<close>: the loop has run to its end and closing the file raises \<open>e\<close>.
\<close>

datatype write_outcome =
    Completed
  | OpenError pyexn
  | LoopError pyexn nat "nat list"
  | CloseError pyexn "nat list"

text \<open>
  The capabilities of a task:
  \<^item> \<open>outdir\<close>: the output directory, a resolved absolute path;
  \<^item> \<open>http_get\<close>: \<open>session.get\<close>, which raises or returns a response;
  \<^item> \<open>stat_error\<close>: the exception that \<open>Path.exists()\<close> lets through for a name: \<open>stat\<close>
    failing with anything but \<open>ENOENT\<close>, \<open>ENOTDIR\<close>, \<open>EBADF\<close> or \<open>ELOOP\<close>, for
    instance \<open>ENAMETOOLONG\<close>;
  \<^item> \<open>os_write\<close>: what a write attempt meets in the current world, for a name and the
    chunks still pending.
\<close>

record env =
  outdir :: ustring
  http_get :: "ustring \<Rightarrow> pyexn + response"
  stat_error :: "world \<Rightarrow> ustring \<Rightarrow> pyexn option"
  os_write :: "world \<Rightarrow> ustring \<Rightarrow> nat list list \<Rightarrow> write_outcome"

text \<open>
  \<open>(outdir / filename).resolve()\<close>: a symbolic link is followed, any other name stays
  in the output directory.
\<close>

definition rpath :: "env \<Rightarrow> world \<Rightarrow> ustring \<Rightarrow> ustring" where
  "rpath E w name =
     (case map_of (links w) name of Some target \<Rightarrow> target | None \<Rightarrow> outdir E @ [47] @ name)"

text \<open>
  \<open>(outdir / filename).exists()\<close>: it follows symbolic links, so a link whose target
  does not exist does not exist either; and it raises what \<open>stat_error\<close> gives.
\<close>

definition path_exists :: "env \<Rightarrow> world \<Rightarrow> ustring \<Rightarrow> pyexn + bool" where
  "path_exists E w name =
     (case stat_error E w name of
        Some e \<Rightarrow> Inl e
      | None \<Rightarrow> Inr (rpath E w name \<in> set (map fst (store w))))"

definition candidate :: "ustring \<Rightarrow> ustring \<Rightarrow> nat \<Rightarrow> ustring" where
  "candidate base ext idx = base @ [95] @ dec idx @ ext"

lemma dec_bound: "n < 10 ^ length (dec n)"
proof (induction n rule: dec.induct)
  case (1 n)
  show ?case
  proof (cases "n < 10")
    case True
    then show ?thesis by (simp add: dec.simps[of n])
  next
    case False
    with 1 have "n div 10 < 10 ^ length (dec (n div 10))" by simp
    then have "n < 10 * 10 ^ length (dec (n div 10))" by linarith
    with False show ?thesis by (simp add: dec.simps[of n])
  qed
qed

text \<open>The names and paths of a world are finitely many, and the candidates grow.\<close>

definition name_room :: "world \<Rightarrow> nat" where
  "name_room w = sum_list (map length (map fst (links w))) + sum_list (map length (map fst (store w)))"

lemma candidate_index_bound:
  assumes "path_exists E w (candidate base ext idx) = Inr True"
  shows "idx < 10 ^ name_room w"
proof -
  let ?c = "candidate base ext idx"
  from assms have m: "rpath E w ?c \<in> set (map fst (store w))"
    by (auto simp: path_exists_def split: option.splits)
  have "length ?c \<le> name_room w"
  proof (cases "map_of (links w) ?c")
    case None
    with m have "outdir E @ [47] @ ?c \<in> set (map fst (store w))" by (simp add: rpath_def)
    then have "length (outdir E @ [47] @ ?c) \<in> set (map length (map fst (store w)))"
      by (metis imageI set_map)
    then have "length (outdir E @ [47] @ ?c) \<le> sum_list (map length (map fst (store w)))"
      by (simp add: member_le_sum_list)
    then show ?thesis by (simp add: name_room_def)
  next
    case (Some target)
    then have "?c \<in> set (map fst (links w))" by (metis map_of_SomeD fst_conv imageI set_map)
    then have "length ?c \<in> set (map length (map fst (links w)))" by (metis imageI set_map)
    then have "length ?c \<le> sum_list (map length (map fst (links w)))"
      by (simp add: member_le_sum_list)
    then show ?thesis by (simp add: name_room_def)
  qed
  then have "length (dec idx) \<le> name_room w" by (simp add: candidate_def)
  then have "(10::nat) ^ length (dec idx) \<le> 10 ^ name_room w" by (simp add: power_increasing)
  with dec_bound[of idx] show ?thesis by linarith
qed

text \<open>
  The \<open>while filepath.exists()\<close> loop (lines 160 to 163, and 179 to 182): \<open>filename\<close>
  is the current candidate and \<open>idx\<close> the next suffix. The loop is left with the first
  candidate that does not exist, or by the exception that \<open>exists()\<close> raises.
\<close>

function find_free :: "env \<Rightarrow> world \<Rightarrow> ustring \<Rightarrow> ustring \<Rightarrow> ustring \<Rightarrow> nat \<Rightarrow> pyexn + ustring" where
  "find_free E w base ext filename idx =
     (case path_exists E w filename of
        Inl e \<Rightarrow> Inl e
      | Inr found \<Rightarrow>
          if found then find_free E w base ext (candidate base ext idx) (Suc idx)
          else Inr filename)"
  by pat_completeness auto
termination
proof (relation "measure (\<lambda>(E, w, base, ext, filename, idx).
          (if path_exists E w filename = Inr True then 1 else 0) + (10 ^ name_room w - idx))")
  show "wf (measure (\<lambda>(E, w, base, ext, filename, idx).
          (if path_exists E w filename = Inr True then 1 else 0) + (10 ^ name_room w - idx)))"
    by simp
next
  fix E :: env and w :: world and base ext filename :: ustring and idx :: nat and found :: bool
  assume "path_exists E w filename = Inr found" and "found"
  then have "path_exists E w filename = Inr True" by simp
  then show "((E, w, base, ext, candidate base ext idx, Suc idx), (E, w, base, ext, filename, idx))
      \<in> measure (\<lambda>(E, w, base, ext, filename, idx).
          (if path_exists E w filename = Inr True then 1 else 0) + (10 ^ name_room w - idx))"
    using candidate_index_bound[of E w base ext idx] by auto
qed

declare find_free.simps [simp del]

text \<open>
  Lines 156 to 163 (and 176 to 182 for the fallback): the first candidate is
  \<open>base + ext\<close> and the suffixes start at 1.
\<close>

definition pick_name :: "env \<Rightarrow> world \<Rightarrow> ustring \<Rightarrow> ustring \<Rightarrow> pyexn + ustring" where
  "pick_name E w base ext = find_free E w base ext (base @ ext) 1"

text \<open>
  \<open>StreamConsumedError\<close>, which \<open>iter_content\<close> raises on a stream that has been read to
  its end: a subclass of \<open>OSError\<close> whose text is empty.
\<close>

definition stream_consumed :: pyexn where
  "stream_consumed = OSError []"

text \<open>
  One write attempt, \<open>with open(filepath, 'wb') as f: for chunk in resp.iter_content(...)\<close>.
  \<open>open\<close> comes first; once it has succeeded the file exists (through a link, at the
  link's target) and holds what the loop has written. The attempt takes its chunks
  from the stream, so a later attempt on the same response sees only what is left.
\<close>

definition write_file ::
  "env \<Rightarrow> world \<Rightarrow> ustring \<Rightarrow> body_stream \<Rightarrow> pyexn option \<times> world \<times> body_stream" where
  "write_file E w filename s =
     (let w1 = w\<lparr>opened := opened w @ [filename]\<rparr>;
          p = rpath E w filename;
          refused = (Some stream_consumed, w1\<lparr>store := AList.update p [] (store w1)\<rparr>, s)
      in case os_write E w filename (pending s) of
           OpenError e \<Rightarrow> (Some e, w1, s)
         | Completed \<Rightarrow>
             if consumed s then refused
             else (None, w1\<lparr>store := AList.update p (concat (pending s)) (store w1)\<rparr>,
                   \<lparr>pending = [], consumed = True\<rparr>)
         | LoopError e r left \<Rightarrow>
             if consumed s then refused
             else (Some e, w1\<lparr>store := AList.update p left (store w1)\<rparr>,
                   s\<lparr>pending := drop r (pending s)\<rparr>)
         | CloseError e left \<Rightarrow>
             if consumed s then refused
             else (Some e, w1\<lparr>store := AList.update p left (store w1)\<rparr>,
                   \<lparr>pending = [], consumed = True\<rparr>))"

text \<open>
  Lines 154 to 192 of \<open>download_icon\<close>: choose the extension and the name, write, fall
  back once. \<open>choose_extension\<close> (line 155) and the first name search (line 160) stand
  before the \<open>try\<close>, and the second name search (line 179) stands in the handler outside
  the inner \<open>try\<close>: what they raise leaves the function.
\<close>

definition store_icon ::
  "pylib \<Rightarrow> env \<Rightarrow> world \<Rightarrow> ustring \<Rightarrow> response \<Rightarrow> ustring
     \<Rightarrow> (pyexn + bool \<times> ustring \<times> int) \<times> world" where
  "store_icon L E w base_name resp icon_url =
     (case choose_extension L (content_type resp) icon_url of
        Inl e \<Rightarrow> (Inl e, w)
      | Inr ext \<Rightarrow>
     (case pick_name E w base_name ext of
        Inl e \<Rightarrow> (Inl e, w)
      | Inr filename \<Rightarrow>
     (case write_file E w filename \<lparr>pending = chunks resp, consumed = False\<rparr> of
        (None, w1, s1) \<Rightarrow> (Inr (True, rpath E w1 filename, - 1), w1)
      | (Some e, w1, s1) \<Rightarrow>
          if is_OSError e then
            (let ascii_base = ascii_fallback_name L base_name 80 in
             case pick_name E w1 ascii_base ext of
               Inl e' \<Rightarrow> (Inl e', w1)
             | Inr filename2 \<Rightarrow>
                 (case write_file E w1 filename2 s1 of
                    (None, w2, s2) \<Rightarrow> (Inr (True, rpath E w2 filename2, - 1), w2)
                  | (Some e2, w2, s2) \<Rightarrow>
                      (Inr (False, ustr ''write_error:'' @ exn_str e2, - 1), w2)))
          else (Inr (False, ustr ''error:'' @ exn_str e, - 1), w1))))"

text \<open>Lines 142 and 143: the title, else the host name of the URL, else \<open>'bookmark'\<close>.\<close>

definition base_name_of :: "pylib \<Rightarrow> ustring \<Rightarrow> ustring \<Rightarrow> pyexn + ustring" where
  "base_name_of L title url =
     (if title \<noteq> [] then Inr (safe_filename_unicode L title 120)
      else
        (case urlparse L url of
           Inl e \<Rightarrow> Inl e
         | Inr u \<Rightarrow>
             Inr (safe_filename_unicode L
                    (case hostname u of
                       None \<Rightarrow> ustr ''bookmark''
                     | Some h \<Rightarrow> if h = [] then ustr ''bookmark'' else h)
                    120)))"

text \<open>
  \<open>download_icon\<close>: the result is \<open>Inl\<close> when an exception leaves the function and
  \<open>Inr (ok, info, -1)\<close> when it returns.
\<close>

definition download_icon ::
  "pylib \<Rightarrow> env \<Rightarrow> world \<Rightarrow> json \<Rightarrow> (pyexn + bool \<times> ustring \<times> int) \<times> world" where
  "download_icon L E w item =
     (case get_stripped L item (ustr ''title'') of
        Inl e \<Rightarrow> (Inl e, w)
      | Inr title \<Rightarrow>
     (case get_stripped L item (ustr ''url'') of
        Inl e \<Rightarrow> (Inl e, w)
      | Inr url \<Rightarrow>
     (case get_stripped L item (ustr ''icon'') of
        Inl e \<Rightarrow> (Inl e, w)
      | Inr icon_url \<Rightarrow>
          if icon_url = [] then (Inr (False, ustr ''no_icon_url'', - 1), w)
          else
            (case base_name_of L title url of
               Inl e \<Rightarrow> (Inl e, w)
             | Inr base_name \<Rightarrow>
                 (let w0 = w\<lparr>requests := requests w @ [icon_url]\<rparr> in
                  case http_get E icon_url of
                    Inl e \<Rightarrow> (Inr (False, ustr ''error:'' @ exn_str e, - 1), w0)
                  | Inr resp \<Rightarrow>
                      if status_code resp \<noteq> 200
                      then (Inr (False, ustr ''http_'' @ dec (status_code resp), - 1), w0)
                      else store_icon L E w0 base_name resp icon_url)))))"

section \<open>Pipeline coordinator\<close>

text \<open>
  What \<open>process_all\<close> meets outside the records: whether the input file exists and
  what \<open>json.load\<close> makes of it, the failures of \<open>mkdir\<close>, of the backup copy and of
  the final write, and \<open>Path(info).relative_to(input_path.parent)\<close> (\<open>None\<close> when it
  raises, which the source catches).
\<close>

record io_env =
  input_path :: ustring
  loaded :: "(pyexn + json) option"
  mkdir_error :: "pyexn option"
  backup_error :: "pyexn option"
  persist_error :: "pyexn option"
  relative_to :: "ustring \<Rightarrow> ustring option"

type_synonym outcome = "nat \<times> bool \<times> ustring"
type_synonym task = "nat \<times> json"

text \<open>
  Lines 224 to 231: the records with an empty icon are marked at once, the others become
  tasks; \<open>i\<close> is the index \<open>enumerate\<close> gives to the first record of the list.
\<close>

fun prepare :: "pylib \<Rightarrow> nat \<Rightarrow> json list \<Rightarrow> pyexn + (outcome list \<times> task list)" where
  "prepare L i [] = Inr ([], [])"
| "prepare L i (item # rest) =
     (case get_stripped L item (ustr ''icon'') of
        Inl e \<Rightarrow> Inl e
      | Inr icon_url \<Rightarrow>
          (case prepare L (Suc i) rest of
             Inl e \<Rightarrow> Inl e
           | Inr (marked, tasks) \<Rightarrow>
               if icon_url = [] then Inr ((i, False, ustr ''no_icon_url'') # marked, tasks)
               else Inr (marked, (i, item) # tasks)))"

text \<open>
  Lines 234 to 243. The tasks run concurrently on the shared directory, so what each
  future yields is left open: \<open>fut idx\<close> is what \<open>fut.result()\<close> returns (\<open>Inr\<close>) or
  raises (\<open>Inl\<close>) for the task of record \<open>idx\<close>, and \<open>completed\<close> lists the tasks in the
  order in which \<open>as_completed\<close> hands them over.
\<close>

definition collect :: "(nat \<Rightarrow> pyexn + bool \<times> ustring \<times> int) \<Rightarrow> task list \<Rightarrow> outcome list" where
  "collect fut completed =
     map (\<lambda>(idx, item).
            case fut idx of
              Inr (ok, info, u) \<Rightarrow> (idx, ok, info)
            | Inl e \<Rightarrow> (idx, False, ustr ''exception:'' @ exn_str e))
         completed"

text \<open>All of \<open>results\<close> when the merge begins.\<close>

definition gather ::
  "pylib \<Rightarrow> (task list \<Rightarrow> task list) \<Rightarrow> (nat \<Rightarrow> pyexn + bool \<times> ustring \<times> int) \<Rightarrow> json list
     \<Rightarrow> pyexn + outcome list" where
  "gather L as_completed fut items =
     (case prepare L 0 items of
        Inl e \<Rightarrow> Inl e
      | Inr (marked, tasks) \<Rightarrow> Inr (marked @ collect fut (as_completed tasks)))"

text \<open>The tasks that are dispatched.\<close>

definition dispatched :: "pylib \<Rightarrow> json list \<Rightarrow> task list" where
  "dispatched L items = (case prepare L 0 items of Inl e \<Rightarrow> [] | Inr (marked, tasks) \<Rightarrow> tasks)"

text \<open>Lines 251 to 259: the text written into the icon field.\<close>

definition local_path :: "(ustring \<Rightarrow> ustring option) \<Rightarrow> bool \<Rightarrow> ustring \<Rightarrow> ustring" where
  "local_path rel write_relative info =
     (if write_relative then (case rel info of Some r \<Rightarrow> r | None \<Rightarrow> info) else info)"

text \<open>
  Lines 248 to 264. \<open>data[idx]\<close> raises out of range and \<open>data[idx]['icon'] = v\<close> raises
  on a value that is no \<open>dict\<close>; both are branches here, though no run reaches them.
\<close>

fun apply_results ::
  "(ustring \<Rightarrow> ustring option) \<Rightarrow> bool \<Rightarrow> outcome list \<Rightarrow> json list \<Rightarrow> pyexn + json list" where
  "apply_results rel wr [] data = Inr data"
| "apply_results rel wr ((idx, ok, info) # rest) data =
     (if ok then
        (if idx < length data then
           (case data ! idx of
              JObj kvs \<Rightarrow>
                apply_results rel wr rest
                  (data[idx := JObj (AList.update (ustr ''icon'') (JStr (local_path rel wr info)) kvs)])
            | other \<Rightarrow> Inl (OtherException (ustr ''object does not support item assignment'')))
         else Inl (OtherException (ustr ''list index out of range'')))
      else apply_results rel wr rest data)"

text \<open>
  \<open>process_all\<close>: \<open>Inl\<close> is the exception that leaves the function, \<open>Inr\<close> the
  collection handed to \<open>json.dump\<close> and moved over the input file.
\<close>

definition process_all ::
  "pylib \<Rightarrow> io_env \<Rightarrow> (task list \<Rightarrow> task list) \<Rightarrow> (nat \<Rightarrow> pyexn + bool \<times> ustring \<times> int)
     \<Rightarrow> bool \<Rightarrow> bool \<Rightarrow> pyexn + json list" where
  "process_all L io as_completed fut backup write_relative =
     (case loaded io of
        None \<Rightarrow> Inl (FileNotFoundError (ustr ''Input file '' @ input_path io @ ustr '' not found''))
      | Some content \<Rightarrow>
     (case mkdir_error io of
        Some e \<Rightarrow> Inl e
      | None \<Rightarrow>
     (case content of
        Inl e \<Rightarrow> Inl e
      | Inr (JArr items) \<Rightarrow>
          (case (if backup then backup_error io else None) of
             Some e \<Rightarrow> Inl e
           | None \<Rightarrow>
          (case gather L as_completed fut items of
             Inl e \<Rightarrow> Inl e
           | Inr results \<Rightarrow>
          (case apply_results (relative_to io) write_relative results items of
             Inl e \<Rightarrow> Inl e
           | Inr out \<Rightarrow>
          (case persist_error io of
             Some e \<Rightarrow> Inl e
           | None \<Rightarrow> Inr out))))
      | Inr other \<Rightarrow> Inl (ValueError (ustr ''Input JSON must be an array of bookmark objects'')))))"

text \<open>
  \<open>as_completed\<close> yields every future once: the completion order is a rearrangement of
  the tasks.
\<close>

definition completes_all :: "(task list \<Rightarrow> task list) \<Rightarrow> bool" where
  "completes_all as_completed = (\<forall>tasks. mset (as_completed tasks) = mset tasks)"

section \<open>An instance of the library and of the environment\<close>

text \<open>
  For evaluating the definitions at concrete inputs: an instance of the library that
  is exact on ASCII text, on the Cyrillic letters U+0410 to U+044F and on the Samaritan
  letters U+0800 to U+0815, with NEL and
  NO-BREAK SPACE as the whitespace beyond ASCII, and that reads URLs of the plain shape
  \<open>scheme://host/path?query#fragment\<close>.
\<close>

definition sample_lower :: "ustring \<Rightarrow> ustring" where
  "sample_lower s =
     map (\<lambda>c. if (65 \<le> c \<and> c \<le> 90) \<or> (1040 \<le> c \<and> c \<le> 1071) then c + 32 else c) s"

definition hexval :: "nat \<Rightarrow> nat option" where
  "hexval c =
     (if 48 \<le> c \<and> c \<le> 57 then Some (c - 48)
      else if 65 \<le> c \<and> c \<le> 70 then Some (c - 55)
      else if 97 \<le> c \<and> c \<le> 102 then Some (c - 87)
      else None)"

text \<open>Percent-decoding of the escapes below \<open>%80\<close>; the other escapes are left as they are.\<close>

fun sample_unquote :: "ustring \<Rightarrow> ustring" where
  "sample_unquote (c # h # l # rest) =
     (if c = 37 then
        (case (hexval h, hexval l) of
           (Some a, Some b) \<Rightarrow>
             if 16 * a + b < 128 then (16 * a + b) # sample_unquote rest
             else c # sample_unquote (h # l # rest)
         | _ \<Rightarrow> c # sample_unquote (h # l # rest))
      else c # sample_unquote (h # l # rest))"
| "sample_unquote s = s"

fun after_scheme :: "ustring \<Rightarrow> ustring option" where
  "after_scheme (a # b # c # rest) =
     (if a = 58 \<and> b = 47 \<and> c = 47 then Some rest else after_scheme (b # c # rest))"
| "after_scheme s = None"

definition sample_urlparse :: "ustring \<Rightarrow> pyexn + parsed_url" where
  "sample_urlparse url =
     (case after_scheme url of
        None \<Rightarrow> Inr \<lparr>path = takeWhile (\<lambda>c. c \<noteq> 63 \<and> c \<noteq> 35) url, hostname = None\<rparr>
      | Some rest \<Rightarrow>
          (let netloc = takeWhile (\<lambda>c. c \<noteq> 47 \<and> c \<noteq> 63 \<and> c \<noteq> 35) rest;
               tail = dropWhile (\<lambda>c. c \<noteq> 47 \<and> c \<noteq> 63 \<and> c \<noteq> 35) rest
           in if (91 \<in> set netloc) \<noteq> (93 \<in> set netloc)
              then Inl (ValueError (ustr ''Invalid IPv6 URL''))
              else Inr \<lparr>path = takeWhile (\<lambda>c. c \<noteq> 63 \<and> c \<noteq> 35) tail,
                        hostname = (if netloc = [] then None else Some (sample_lower netloc))\<rparr>))"

text \<open>
  The sample guesser raises where \<open>urlparse\<close> raises and otherwise knows no type: it is
  asked only about URLs whose path has no extension or one of more than 5 characters.
\<close>

definition sample_guess_type :: "ustring \<Rightarrow> pyexn + ustring option" where
  "sample_guess_type url = (case sample_urlparse url of Inl e \<Rightarrow> Inl e | Inr u \<Rightarrow> Inr None)"

definition sample_lib :: pylib where
  "sample_lib =
     \<lparr>isalnum_hi = (\<lambda>c. (1040 \<le> c \<and> c \<le> 1103) \<or> (2048 \<le> c \<and> c \<le> 2069)),
      isspace_hi = (\<lambda>c. c = 133 \<or> c = 160),
      str_lower = sample_lower,
      unquote = sample_unquote,
      urlparse = sample_urlparse,
      guess_type = sample_guess_type\<rparr>"

text \<open>The length of a string in bytes when it is encoded in UTF-8.\<close>

definition utf8_length :: "ustring \<Rightarrow> nat" where
  "utf8_length s =
     sum_list (map (\<lambda>c. if c < 128 then 1 else if c < 2048 then 2 else if c < 65536 then 3 else 4) s)"

text \<open>The limits of Linux: 255 bytes for a name and 4095 bytes for a path.\<close>

definition too_long :: "ustring \<Rightarrow> ustring \<Rightarrow> bool" where
  "too_long dir name = (255 < utf8_length name \<or> 4095 < utf8_length (dir @ [47] @ name))"

text \<open>
  An environment over a directory \<open>dir\<close>: every icon is served as a GIF of three bytes in
  two chunks; \<open>stat\<close> and \<open>open\<close> fail with \<open>ENAMETOOLONG\<close> beyond the limits; \<open>open\<close>
  refuses, with \<open>OSError\<close>, every name holding a code point from 128 on.
\<close>

definition posix_env :: "ustring \<Rightarrow> env" where
  "posix_env dir =
     \<lparr>outdir = dir,
      http_get = (\<lambda>url. Inr \<lparr>status_code = 200, content_type = Some (ustr ''image/gif''),
                              chunks = [[71, 73], [70]]\<rparr>),
      stat_error = (\<lambda>w name.
                      if too_long dir name then Some (OSError (ustr ''File name too long''))
                      else None),
      os_write = (\<lambda>w name cs.
                    if too_long dir name then OpenError (OSError (ustr ''File name too long''))
                    else if \<exists>c\<in>set name. 128 \<le> c
                    then OpenError (OSError (ustr ''Invalid argument''))
                    else Completed)\<rparr>"

definition sample_env :: env where
  "sample_env = posix_env (ustr ''/icons'')"

definition empty_world :: world where
  "empty_world = \<lparr>links = [], store = [], requests = [], opened = []\<rparr>"

definition sample_io :: io_env where
  "sample_io =
     \<lparr>input_path = ustr ''/home/b.json'',
      loaded = None,
      mkdir_error = None,
      backup_error = None,
      persist_error = None,
      relative_to = (\<lambda>p. if take 6 p = ustr ''/home/'' then Some (drop 6 p) else None)\<rparr>"





definition link_world :: world where
  "link_world = empty_world\<lparr>links := [(ustr ''Example.gif'', ustr ''/tmp/elsewhere.gif'')]\<rparr>"

definition used_world :: world where
  "used_world = empty_world\<lparr>store := [(ustr ''/icons/Example.gif'', [1, 2, 3])]\<rparr>"



definition long_item :: json where
  "long_item =
     JObj [(ustr ''title'', JStr (replicate 84 2048)),
           (ustr ''icon'', JStr (ustr ''http://example.com/favicon.ico''))]"

section \<open>Notions used to state the properties\<close>

text \<open>The sequence of names the writer tries: \<open>base.ext\<close>, \<open>base_1.ext\<close>, \<open>base_2.ext\<close>, ...\<close>

definition nth_candidate :: "ustring \<Rightarrow> ustring \<Rightarrow> nat \<Rightarrow> ustring" where
  "nth_candidate base ext k = (if k = 0 then base @ ext else candidate base ext k)"

text \<open>
  A name is occupied when the directory has an entry under it: a symbolic link, dangling
  or not, or something that exists at \<open>outdir/name\<close>.
\<close>

definition is_entry :: "env \<Rightarrow> world \<Rightarrow> ustring \<Rightarrow> bool" where
  "is_entry E w name =
     (name \<in> set (map fst (links w)) \<or> outdir E @ [47] @ name \<in> set (map fst (store w)))"

text \<open>
  How \<open>json.dump\<close> writes a string with \<open>ensure_ascii=False\<close>: only the quote, the
  backslash and the code points below 32 are escaped.
\<close>

definition hex_digit :: "nat \<Rightarrow> nat" where
  "hex_digit d = (if d < 10 then 48 + d else 87 + d)"

definition escape_char :: "nat \<Rightarrow> ustring" where
  "escape_char c =
     (if c = 92 then [92, 92]
      else if c = 34 then [92, 34]
      else if c = 8 then [92, 98]
      else if c = 12 then [92, 102]
      else if c = 10 then [92, 110]
      else if c = 13 then [92, 114]
      else if c = 9 then [92, 116]
      else if c < 32 then [92, 117, 48, 48, hex_digit (c div 16), hex_digit (c mod 16)]
      else [c])"

definition encode_basestring :: "ustring \<Rightarrow> ustring" where
  "encode_basestring s = [34] @ concat (map escape_char s) @ [34]"

text \<open>A record after \<open>item['icon'] = v\<close>.\<close>

definition with_icon :: "ustring \<Rightarrow> json \<Rightarrow> json" where
  "with_icon v item =
     (case item of JObj kvs \<Rightarrow> JObj (AList.update (ustr ''icon'') (JStr v) kvs) | other \<Rightarrow> other)"

text \<open>
  A collection of four records: one with an icon, one whose icon is blank, one whose
  \<open>url\<close> is \<open>null\<close>, and one without a title whose \<open>url\<close> makes \<open>urlparse\<close> raise.
\<close>

definition sample_items :: "json list" where
  "sample_items =
     [JObj [(ustr ''title'', JStr (ustr ''Example'')),
            (ustr ''url'', JStr (ustr ''http://example.com'')),
            (ustr ''icon'', JStr (ustr ''http://example.com/favicon.ico''))],
      JObj [(ustr ''title'', JStr [1055, 1088, 1080, 1084, 1077, 1088]),
            (ustr ''url'', JStr (ustr ''http://example.org'')),
            (ustr ''icon'', JStr (ustr ''  ''))],
      JObj [(ustr ''title'', JStr (ustr ''Docs'')),
            (ustr ''icon'', JStr (ustr ''http://docs.example/i.png'')),
            (ustr ''url'', JNull)],
      JObj [(ustr ''url'', JStr (ustr ''http://[::1/'')),
            (ustr ''icon'', JStr (ustr ''http://example.net/i.png''))]]"

text \<open>
  What the three futures of that collection yield in one run: a stored icon, a 404, and
  the \<open>ValueError\<close> that \<open>urlparse\<close> raises inside the task of the last record.
\<close>

definition sample_fut :: "nat \<Rightarrow> pyexn + bool \<times> ustring \<times> int" where
  "sample_fut idx =
     (if idx = 0 then Inr (True, ustr ''/home/icons/Example.ico'', - 1)
      else if idx = 2 then Inr (False, ustr ''http_404'', - 1)
      else Inl (ValueError (ustr ''Invalid IPv6 URL'')))"

definition sample_run_io :: io_env where
  "sample_run_io = sample_io\<lparr>loaded := Some (Inr (JArr sample_items))\<rparr>"

definition sample_out :: "json list" where
  "sample_out = sample_items[0 := with_icon (ustr ''icons/Example.ico'') (sample_items ! 0)]"

section \<open>Properties of the sanitizer\<close>

lemma keep_unicode_not_sep: "keep_unicode L c \<Longrightarrow> c \<noteq> 47 \<and> c \<noteq> 92 \<and> c \<noteq> 37"
  by (auto simp: keep_unicode_def is_word_def isalnum_def ascii_isalnum_def split: if_splits)

lemma keep_unicode_not_control: "unicode_ok L \<Longrightarrow> keep_unicode L c \<Longrightarrow> \<not> is_control c"
  by (auto simp: keep_unicode_def is_word_def isalnum_def ascii_isalnum_def is_control_def
      unicode_ok_def split: if_splits)

lemma keep_unicode_not_space: "unicode_ok L \<Longrightarrow> keep_unicode L c \<Longrightarrow> \<not> isspace L c"
  by (auto simp: keep_unicode_def is_word_def isalnum_def ascii_isalnum_def isspace_def
      ascii_isspace_def unicode_ok_def split: if_splits)

lemma keep_ascii_unicode: "keep_ascii c \<Longrightarrow> keep_unicode L c"
  by (auto simp: keep_ascii_def keep_unicode_def is_word_def isalnum_def ascii_isalnum_def)

lemma keep_ascii_lt: "keep_ascii c \<Longrightarrow> c < 128"
  by (auto simp: keep_ascii_def ascii_isalnum_def)

lemma keep_ascii_not_space: "keep_ascii c \<Longrightarrow> \<not> isspace L c"
  by (auto simp: keep_ascii_def ascii_isalnum_def isspace_def ascii_isspace_def)

lemma keep_ascii_unnamed: "\<forall>c\<in>set (ustr ''unnamed''). keep_ascii c"
  by (simp add: ustr_def keep_ascii_def ascii_isalnum_def)

lemma keep_ascii_file: "\<forall>c\<in>set (ustr ''file''). keep_ascii c"
  by (simp add: ustr_def keep_ascii_def ascii_isalnum_def)

lemma set_slice_upto: "set (slice_upto n s) \<subseteq> set s"
  by (auto simp: slice_upto_def dest: in_set_takeD)

lemma length_slice_upto: "0 \<le> n \<Longrightarrow> int (length (slice_upto n s)) \<le> n"
  by (simp add: slice_upto_def)

lemma set_strip: "set (strip L s) \<subseteq> set s"
proof
  fix x assume "x \<in> set (strip L s)"
  then have "x \<in> set (dropWhile (isspace L) (rev (dropWhile (isspace L) s)))"
    by (simp add: strip_def)
  then have "x \<in> set (dropWhile (isspace L) s)"
    using set_dropWhileD by fastforce
  then show "x \<in> set s" by (rule set_dropWhileD)
qed

lemma dropWhile_none: "\<forall>c\<in>set s. \<not> P c \<Longrightarrow> dropWhile P s = s"
  by (cases s) auto

lemma strip_id: "\<forall>c\<in>set s. \<not> isspace L c \<Longrightarrow> strip L s = s"
  by (simp add: strip_def dropWhile_none)

lemma strip_all_space:
  assumes "\<forall>c\<in>set s. isspace L c"
  shows "strip L s = []"
proof -
  have h: "dropWhile (isspace L) s = []" using assms by (induction s) auto
  show ?thesis unfolding strip_def h by simp
qed

lemma sub_ws_runs_id: "\<forall>c\<in>set s. \<not> sp c \<Longrightarrow> sub_ws_runs sp s = s"
  by (induction s) auto

lemma replace_char_id: "a \<notin> set s \<Longrightarrow> replace_char a b s = s"
  unfolding replace_char_def by (induction s) auto

lemma clean_unicode_keep: "\<forall>c\<in>set (clean_unicode L name). keep_unicode L c"
  by (simp add: clean_unicode_def Let_def)

lemma safe_filename_unicode_keep:
  "\<forall>c\<in>set (safe_filename_unicode L name m). keep_unicode L c"
  using clean_unicode_keep[of L name] set_slice_upto[of m "clean_unicode L name"]
    keep_ascii_unnamed keep_ascii_file
  by (auto simp: safe_filename_unicode_def Let_def keep_ascii_unicode)

lemma safe_filename_unicode_nonempty: "safe_filename_unicode L name m \<noteq> []"
  by (simp add: safe_filename_unicode_def Let_def ustr_def)

lemma safe_filename_unicode_length:
  "7 \<le> m \<Longrightarrow> int (length (safe_filename_unicode L name m)) \<le> m"
  using length_slice_upto[of m "clean_unicode L name"]
  by (auto simp: safe_filename_unicode_def Let_def ustr_def)

lemma safe_filename_unicode_fixed:
  assumes "unicode_ok L" "unquote_ok L" "s \<noteq> []" "\<forall>c\<in>set s. keep_unicode L c"
    "int (length s) \<le> m"
  shows "safe_filename_unicode L s m = s"
proof -
  have pct: "37 \<notin> set s" using assms(4) keep_unicode_not_sep by blast
  have sl: "47 \<notin> set s" "92 \<notin> set s" using assms(4) keep_unicode_not_sep by blast+
  have sp: "\<forall>c\<in>set s. \<not> isspace L c" using assms(1,4) keep_unicode_not_space by blast
  have "unquote L s = s" using assms(2) pct by (simp add: unquote_ok_def)
  then have "clean_unicode L s = s"
    using sl sp assms(4) by (simp add: clean_unicode_def strip_id replace_char_id sub_ws_runs_id)
  then show ?thesis using assms(3,5) by (simp add: safe_filename_unicode_def)
qed

lemma ascii_fallback_name_keep: "\<forall>c\<in>set (ascii_fallback_name L name m). keep_ascii c"
proof -
  let ?a1 = "filter keep_ascii (filter (\<lambda>c. c < 128) name)"
  have a2: "\<forall>c\<in>set (strip L ?a1). keep_ascii c" using set_strip[of L ?a1] by auto
  let ?a3 = "if strip L ?a1 = [] then ustr ''file'' else strip L ?a1"
  have a3: "\<forall>c\<in>set ?a3. keep_ascii c" using a2 keep_ascii_file by presburger
  then have "\<forall>c\<in>set (slice_upto m ?a3). keep_ascii c" using set_slice_upto[of m ?a3] by blast
  with a3 show ?thesis unfolding ascii_fallback_name_def Let_def by presburger
qed

lemma ascii_fallback_name_nonempty: "1 \<le> m \<Longrightarrow> ascii_fallback_name L name m \<noteq> []"
  by (auto simp: ascii_fallback_name_def Let_def slice_upto_def ustr_def)

lemma ascii_fallback_name_length: "0 \<le> m \<Longrightarrow> int (length (ascii_fallback_name L name m)) \<le> m"
  using length_slice_upto[of m] by (auto simp: ascii_fallback_name_def Let_def)

lemma keep_ascii_not_bad: "keep_ascii c \<Longrightarrow> c \<noteq> 47 \<and> c \<noteq> 92 \<and> \<not> is_control c"
  by (auto simp: keep_ascii_def ascii_isalnum_def is_control_def)

text \<open>
  Claim C3. For every input string, \<open>safe_filename_unicode\<close> with cap 120 and
  \<open>ascii_fallback_name\<close> with cap 80 return a string that is not empty, holds neither
  a slash nor a backslash, holds no control character and is no longer than the cap. The
  empty input gives \<open>'unnamed'\<close> in the Unicode form, and an input of which the
  cleaning leaves nothing gives \<open>'file'\<close>. Both models are total functions without an
  error branch: no step of the two bodies raises on a \<open>str\<close>. The only assumption is on
  the Unicode tables: the C1 controls are not alphanumeric.
\<close>

theorem sanitizers_give_safe_names:
  assumes "unicode_ok L"
  shows "safe_filename_unicode L name 120 \<noteq> []
    \<and> 47 \<notin> set (safe_filename_unicode L name 120)
    \<and> 92 \<notin> set (safe_filename_unicode L name 120)
    \<and> (\<forall>c\<in>set (safe_filename_unicode L name 120). \<not> is_control c)
    \<and> length (safe_filename_unicode L name 120) \<le> 120
    \<and> ascii_fallback_name L name 80 \<noteq> []
    \<and> 47 \<notin> set (ascii_fallback_name L name 80)
    \<and> 92 \<notin> set (ascii_fallback_name L name 80)
    \<and> (\<forall>c\<in>set (ascii_fallback_name L name 80). \<not> is_control c)
    \<and> length (ascii_fallback_name L name 80) \<le> 80
    \<and> safe_filename_unicode L [] 120 = ustr ''unnamed''
    \<and> (name \<noteq> [] \<and> clean_unicode L name = [] \<longrightarrow> safe_filename_unicode L name 120 = ustr ''file'')
    \<and> (filter keep_ascii (filter (\<lambda>c. c < 128) name) = [] \<longrightarrow> ascii_fallback_name L name 80 = ustr ''file'')"
proof -
  let ?u = "safe_filename_unicode L name 120"
  let ?a = "ascii_fallback_name L name 80"
  have ku: "\<forall>c\<in>set ?u. keep_unicode L c" by (rule safe_filename_unicode_keep)
  have ka: "\<forall>c\<in>set ?a. keep_ascii c" by (rule ascii_fallback_name_keep)
  have u1: "?u \<noteq> []" by (rule safe_filename_unicode_nonempty)
  have u2: "47 \<notin> set ?u" "92 \<notin> set ?u" using ku keep_unicode_not_sep by blast+
  have u3: "\<forall>c\<in>set ?u. \<not> is_control c" using ku keep_unicode_not_control[OF assms] by blast
  have u4: "length ?u \<le> 120" using safe_filename_unicode_length[of 120 L name] by simp
  have a1: "?a \<noteq> []" by (rule ascii_fallback_name_nonempty) simp
  have a2: "47 \<notin> set ?a" "92 \<notin> set ?a" using ka keep_ascii_not_bad by blast+
  have a3: "\<forall>c\<in>set ?a. \<not> is_control c" using ka keep_ascii_not_bad by blast
  have a4: "length ?a \<le> 80" using ascii_fallback_name_length[of 80 L name] by simp
  have e1: "safe_filename_unicode L [] 120 = ustr ''unnamed''"
    by (simp add: safe_filename_unicode_def)
  have e2: "name \<noteq> [] \<and> clean_unicode L name = [] \<longrightarrow> ?u = ustr ''file''"
    by (simp add: safe_filename_unicode_def)
  have e3: "filter keep_ascii (filter (\<lambda>c. c < 128) name) = [] \<longrightarrow> ?a = ustr ''file''"
    by (simp add: ascii_fallback_name_def strip_def ustr_def)
  from u1 u2 u3 u4 a1 a2 a3 a4 e1 e2 e3 show ?thesis by blast
qed

lemma unicode_ok_sample: "unicode_ok sample_lib"
  by (auto simp: unicode_ok_def sample_lib_def)

text \<open>
  Claim C9. Sanitizing a sanitized name returns it unchanged, and equal inputs give
  equal outputs (the model is a function of its input and of the library alone). The
  assumptions are on the library: \<open>unquote\<close> returns a string without a percent sign as
  it is, and no code point is both alphanumeric and whitespace.
\<close>

theorem sanitize_idempotent:
  assumes "unicode_ok L" and "unquote_ok L"
  shows "safe_filename_unicode L (safe_filename_unicode L x 120) 120 = safe_filename_unicode L x 120
    \<and> (x = y \<longrightarrow> safe_filename_unicode L x 120 = safe_filename_unicode L y 120)"
proof -
  let ?s = "safe_filename_unicode L x 120"
  have "int (length ?s) \<le> 120" by (rule safe_filename_unicode_length) simp
  then have "safe_filename_unicode L ?s 120 = ?s"
    using assms safe_filename_unicode_nonempty safe_filename_unicode_keep
    by (intro safe_filename_unicode_fixed) auto
  then show ?thesis by simp
qed

lemma isspace_not_pct: "isspace L c \<Longrightarrow> c \<noteq> 37"
  by (auto simp: isspace_def ascii_isspace_def split: if_splits)

text \<open>
  Claim C10. An input that is not empty and holds whitespace only gives \<open>'file'\<close>, not
  \<open>'unnamed'\<close>, whatever the cap; \<open>'unnamed'\<close> is the result of the first test of the
  function, on the empty input, and an input that is not empty always yields either
  \<open>'file'\<close> or its cleaned text cut to the cap.
\<close>

theorem whitespace_only_gives_file:
  assumes "unquote_ok L" and "name \<noteq> []" and "\<forall>c\<in>set name. isspace L c"
  shows "safe_filename_unicode L name m = ustr ''file''
    \<and> safe_filename_unicode L name m \<noteq> ustr ''unnamed''
    \<and> safe_filename_unicode L [] m = ustr ''unnamed''
    \<and> (\<forall>x. x \<noteq> [] \<longrightarrow>
          safe_filename_unicode L x m = ustr ''file''
          \<or> safe_filename_unicode L x m =
              (if m < int (length (clean_unicode L x)) then slice_upto m (clean_unicode L x)
               else clean_unicode L x))"
proof -
  have "37 \<notin> set name" using assms(3) isspace_not_pct by blast
  then have "unquote L name = name" using assms(1) by (simp add: unquote_ok_def)
  then have "clean_unicode L name = []"
    using assms(3) by (simp add: clean_unicode_def strip_all_space replace_char_def)
  then have f: "safe_filename_unicode L name m = ustr ''file''"
    using assms(2) by (simp add: safe_filename_unicode_def slice_upto_def)
  have u: "safe_filename_unicode L [] m = ustr ''unnamed''"
    by (simp add: safe_filename_unicode_def)
  have b: "\<forall>x. x \<noteq> [] \<longrightarrow>
          safe_filename_unicode L x m = ustr ''file''
          \<or> safe_filename_unicode L x m =
              (if m < int (length (clean_unicode L x)) then slice_upto m (clean_unicode L x)
               else clean_unicode L x)"
    by (simp add: safe_filename_unicode_def Let_def)
  have "ustr ''file'' \<noteq> ustr ''unnamed''" by (simp add: ustr_def)
  with f u b show ?thesis by simp
qed

lemma unquote_ok_sample: "unquote_ok sample_lib"
proof -
  have "37 \<notin> set s \<Longrightarrow> sample_unquote s = s" for s
    by (induction s rule: sample_unquote.induct) auto
  then show ?thesis by (simp add: unquote_ok_def sample_lib_def)
qed

section \<open>Properties of the extension resolver\<close>

lemma table_values_dotted:
  assumes "map_of CONTENT_TYPE_EXT k = Some e"
  shows "e \<noteq> [] \<and> hd e = 46"
proof -
  from assms have "(k, e) \<in> set CONTENT_TYPE_EXT" by (rule map_of_SomeD)
  then have "e \<in> snd ` set CONTENT_TYPE_EXT" by force
  then show ?thesis by (auto simp: CONTENT_TYPE_EXT_def ustr_def)
qed

lemma drop_rfind:
  assumes "0 \<le> rfind c s"
  shows "\<exists>t. drop (nat (rfind c s)) s = c # t"
proof -
  let ?P = "\<lambda>x. x \<noteq> c"
  let ?r = "dropWhile ?P (rev s)"
  from assms have "?r \<noteq> []" by (auto simp: rfind_def)
  then obtain y r' where r: "?r = y # r'" by (cases ?r) auto
  then have "\<not> ?P y" using hd_dropWhile[of ?P "rev s"] by auto
  then have y: "y = c" by simp
  have "rev s = takeWhile ?P (rev s) @ ?r" by simp
  then have "s = rev ?r @ rev (takeWhile ?P (rev s))"
    by (metis rev_append rev_rev_ident)
  then have s: "s = rev r' @ c # rev (takeWhile ?P (rev s))" using r y by simp
  have n: "nat (rfind c s) = length r'" using r by (simp add: rfind_def)
  have "drop (length r') (rev r' @ c # rev (takeWhile ?P (rev s))) = c # rev (takeWhile ?P (rev s))"
    by simp
  with s n show ?thesis by metis
qed

lemma splitext_ext_dotted: "snd (splitext p) = [] \<or> (\<exists>t. snd (splitext p) = 46 # t)"
proof (cases "rfind 46 p > rfind 47 p \<and>
    list_ex (\<lambda>c. c \<noteq> 46) (take (nat (rfind 46 p) - nat (rfind 47 p + 1)) (drop (nat (rfind 47 p + 1)) p))")
  case True
  have "- 1 \<le> rfind 47 p" by (simp add: rfind_def)
  with True have "0 \<le> rfind 46 p" by linarith
  from drop_rfind[OF this] True show ?thesis by (simp add: splitext_def Let_def)
next
  case False
  then show ?thesis by (auto simp: splitext_def Let_def)
qed

lemma ext_from_url_dotted:
  assumes "lower_ok L"
  shows "ext_from_url L url = [] \<or> (\<exists>t. ext_from_url L url = 46 # t)"
proof (cases "urlparse L url")
  case (Inl e)
  then show ?thesis by (simp add: ext_from_url_def)
next
  case (Inr u)
  from splitext_ext_dotted[of "path u"] show ?thesis
  proof
    assume "snd (splitext (path u)) = []"
    with Inr assms show ?thesis by (simp add: ext_from_url_def lower_ok_def)
  next
    assume "\<exists>t. snd (splitext (path u)) = 46 # t"
    then obtain t where "snd (splitext (path u)) = 46 # t" by blast
    moreover from assms obtain t' where "str_lower L (46 # t) = 46 # t'"
      unfolding lower_ok_def by blast
    ultimately show ?thesis using Inr by (simp add: ext_from_url_def)
  qed
qed

lemma ext_from_url_lower:
  "lower_ok L \<Longrightarrow> ext_from_url L url = str_lower L (spec_url_extension L url)"
  by (auto simp: ext_from_url_def spec_url_extension_def lower_ok_def split: sum.splits)

lemma png_dotted: "ustr ''.png'' \<noteq> [] \<and> hd (ustr ''.png'') = 46"
  by (simp add: ustr_def)

text \<open>
  Claim C5, as amended. With the header cut at the first semicolon, stripped of
  surrounding whitespace and lower-cased, \<open>choose_extension\<close> returns the table's
  extension when that text is a key of the table; otherwise the lower-cased extension of
  the URL's path when that lower-cased text is not empty and has at most 5 characters;
  otherwise, when the guesser of types returns, the table's extension for the guessed
  type when the guess is a key of the table, and \<open>'.png'\<close> when it is not. Whenever
  \<open>choose_extension\<close> returns, the result is not empty and begins with a dot, and it
  returns whenever the guesser is not reached or returns.
\<close>

theorem choose_extension_precedence:
  assumes "lower_ok L"
  shows "(\<forall>e. map_of CONTENT_TYPE_EXT (normalize_content_type L hdr) = Some e
            \<longrightarrow> choose_extension L hdr url = Inr e)
    \<and> (map_of CONTENT_TYPE_EXT (normalize_content_type L hdr) = None
         \<and> str_lower L (spec_url_extension L url) \<noteq> []
         \<and> length (str_lower L (spec_url_extension L url)) \<le> 5
       \<longrightarrow> choose_extension L hdr url = Inr (str_lower L (spec_url_extension L url)))
    \<and> (map_of CONTENT_TYPE_EXT (normalize_content_type L hdr) = None
         \<and> (str_lower L (spec_url_extension L url) = []
              \<or> 5 < length (str_lower L (spec_url_extension L url)))
       \<longrightarrow> (\<forall>g. guess_type L url = Inr g
              \<longrightarrow> choose_extension L hdr url =
                    Inr (case g of
                           None \<Rightarrow> ustr ''.png''
                         | Some t \<Rightarrow>
                             (case map_of CONTENT_TYPE_EXT t of
                                None \<Rightarrow> ustr ''.png''
                              | Some e \<Rightarrow> e))))
    \<and> (\<forall>r. choose_extension L hdr url = Inr r \<longrightarrow> r \<noteq> [] \<and> hd r = 46)
    \<and> ((\<exists>g. guess_type L url = Inr g) \<longrightarrow> (\<exists>r. choose_extension L hdr url = Inr r))"
proof -
  let ?ct = "normalize_content_type L hdr"
  let ?ext = "str_lower L (spec_url_extension L url)"
  let ?pick = "\<lambda>g. case g of
                           None \<Rightarrow> ustr ''.png''
                         | Some t \<Rightarrow>
                             (case map_of CONTENT_TYPE_EXT t of
                                None \<Rightarrow> ustr ''.png''
                              | Some e \<Rightarrow> e)"
  have ext: "ext_from_url L url = ?ext" by (rule ext_from_url_lower[OF assms])
  have empty_key: "map_of CONTENT_TYPE_EXT [] = None"
    by (simp add: CONTENT_TYPE_EXT_def ustr_def)
  have c1: "\<forall>e. map_of CONTENT_TYPE_EXT ?ct = Some e \<longrightarrow> choose_extension L hdr url = Inr e"
    by (simp add: choose_extension_def)
  have c2: "map_of CONTENT_TYPE_EXT ?ct = None \<and> ?ext \<noteq> [] \<and> length ?ext \<le> 5
      \<longrightarrow> choose_extension L hdr url = Inr ?ext"
    by (simp add: choose_extension_def ext)
  have c3: "choose_extension L hdr url = Inr (?pick g)"
    if "map_of CONTENT_TYPE_EXT ?ct = None" "?ext = [] \<or> 5 < length ?ext"
      "guess_type L url = Inr g" for g
    using that empty_key by (cases g) (auto simp: choose_extension_def ext split: option.splits)
  have pick_dot: "?pick g \<noteq> [] \<and> hd (?pick g) = 46" for g
    using png_dotted table_values_dotted by (auto split: option.splits)
  have dot: "r \<noteq> [] \<and> hd r = 46" if r: "choose_extension L hdr url = Inr r" for r
  proof (cases "map_of CONTENT_TYPE_EXT ?ct")
    case (Some e)
    with c1 r have "r = e" by simp
    with table_values_dotted[OF Some] show ?thesis by simp
  next
    case None
    show ?thesis
    proof (cases "?ext \<noteq> [] \<and> length ?ext \<le> 5")
      case True
      with None c2 r have "r = ?ext" by simp
      moreover from ext_from_url_dotted[OF assms, of url] True ext
      have "\<exists>t. ?ext = 46 # t" by auto
      ultimately show ?thesis by auto
    next
      case False
      then have f: "?ext = [] \<or> 5 < length ?ext" by auto
      show ?thesis
      proof (cases "guess_type L url")
        case (Inl e)
        with None f r show ?thesis by (auto simp: choose_extension_def ext Let_def)
      next
        case (Inr g)
        from c3[OF None f Inr] r have "r = ?pick g" by simp
        with pick_dot[of g] show ?thesis by simp
      qed
    qed
  qed
  have ret: "\<exists>r. choose_extension L hdr url = Inr r" if "\<exists>g. guess_type L url = Inr g"
  proof (cases "map_of CONTENT_TYPE_EXT ?ct")
    case (Some e)
    with c1 show ?thesis by blast
  next
    case None
    show ?thesis
    proof (cases "?ext \<noteq> [] \<and> length ?ext \<le> 5")
      case True
      with None c2 show ?thesis by blast
    next
      case False
      then have f: "?ext = [] \<or> 5 < length ?ext" by auto
      from that obtain g where "guess_type L url = Inr g" by blast
      from c3[OF None f this] show ?thesis by blast
    qed
  qed
  from c1 c2 c3 dot ret show ?thesis by blast
qed

lemma choose_extension_raises_iff:
  "choose_extension L hdr url = Inl e \<longleftrightarrow>
     map_of CONTENT_TYPE_EXT (normalize_content_type L hdr) = None
     \<and> \<not> (ext_from_url L url \<noteq> [] \<and> length (ext_from_url L url) \<le> 5)
     \<and> guess_type L url = Inl e"
  by (auto simp: choose_extension_def Let_def split: option.splits sum.splits)

text \<open>
  The call of the guesser is not guarded: for a content type outside the table and a
  URL with an unmatched bracket in its host part, which \<open>urlparse\<close> refuses, the
  \<open>ValueError\<close> leaves \<open>choose_extension\<close>.
\<close>

lemma unguarded_guess_raises:
  "choose_extension sample_lib (Some (ustr ''application/octet-stream''))
     (ustr ''http://user[@example.com/favicon'') = Inl (ValueError (ustr ''Invalid IPv6 URL''))"
  by code_simp

lemma lower_ok_sample: "lower_ok sample_lib"
  by (simp add: lower_ok_def sample_lib_def sample_lower_def)

text \<open>
  Claim C5 as stated fails: for an unknown content type and the URL
  \<open>http://example.com/favicon.ICO\<close> the extension of the URL's path is \<open>.ICO\<close>, four
  characters long, and \<open>choose_extension\<close> returns \<open>.ico\<close>.
\<close>

theorem url_extension_case_counterexample:
  "map_of CONTENT_TYPE_EXT
       (normalize_content_type sample_lib (Some (ustr ''application/octet-stream''))) = None
   \<and> spec_url_extension sample_lib (ustr ''http://example.com/favicon.ICO'') = ustr ''.ICO''
   \<and> length (ustr ''.ICO'') \<le> 5
   \<and> choose_extension sample_lib (Some (ustr ''application/octet-stream''))
        (ustr ''http://example.com/favicon.ICO'') = Inr (ustr ''.ico'')
   \<and> ustr ''.ico'' \<noteq> ustr ''.ICO''"
  by code_simp

theorem choose_extension_precedence_witness:
  "lower_ok sample_lib
   \<and> map_of CONTENT_TYPE_EXT (normalize_content_type sample_lib (Some (ustr ''Image/X-Icon ; q=1''))) = Some (ustr ''.ico'')
   \<and> choose_extension sample_lib (Some (ustr ''Image/X-Icon ; q=1'')) (ustr ''http://example.com/a.svg'') = Inr (ustr ''.ico'')
   \<and> map_of CONTENT_TYPE_EXT (normalize_content_type sample_lib None) = None
   \<and> str_lower sample_lib (spec_url_extension sample_lib (ustr ''http://example.com/a.SVG?v=2'')) = ustr ''.svg''
   \<and> choose_extension sample_lib None (ustr ''http://example.com/a.SVG?v=2'') = Inr (ustr ''.svg'')
   \<and> str_lower sample_lib (spec_url_extension sample_lib (ustr ''http://example.com/favicon'')) = []
   \<and> guess_type sample_lib (ustr ''http://example.com/favicon'') = Inr None
   \<and> choose_extension sample_lib None (ustr ''http://example.com/favicon'') = Inr (ustr ''.png'')"
proof -
  have h1: "map_of CONTENT_TYPE_EXT (normalize_content_type sample_lib (Some (ustr ''Image/X-Icon ; q=1''))) = Some (ustr ''.ico'')"
    by code_simp
  have h2: "map_of CONTENT_TYPE_EXT (normalize_content_type sample_lib None) = None" by code_simp
  have h3: "str_lower sample_lib (spec_url_extension sample_lib (ustr ''http://example.com/a.SVG?v=2'')) = ustr ''.svg''"
    by code_simp
  have h4: "str_lower sample_lib (spec_url_extension sample_lib (ustr ''http://example.com/favicon'')) = []"
    by code_simp
  have h5: "guess_type sample_lib (ustr ''http://example.com/favicon'') = Inr None"
    by code_simp
  from choose_extension_precedence[OF lower_ok_sample, of "Some (ustr ''Image/X-Icon ; q=1'')" "ustr ''http://example.com/a.svg''"] h1
  have a: "choose_extension sample_lib (Some (ustr ''Image/X-Icon ; q=1'')) (ustr ''http://example.com/a.svg'') = Inr (ustr ''.ico'')"
    by blast
  from choose_extension_precedence[OF lower_ok_sample, of None "ustr ''http://example.com/a.SVG?v=2''"] h2 h3
  have b: "choose_extension sample_lib None (ustr ''http://example.com/a.SVG?v=2'') = Inr (ustr ''.svg'')"
    by (simp add: ustr_def)
  from choose_extension_precedence[OF lower_ok_sample, of None "ustr ''http://example.com/favicon''"] h2 h4 h5
  have c: "choose_extension sample_lib None (ustr ''http://example.com/favicon'') = Inr (ustr ''.png'')"
    by simp
  from lower_ok_sample h1 a h2 h3 b h4 h5 c show ?thesis by blast
qed

section \<open>Properties of the coordinator\<close>

lemma get_stripped_obj: "get_stripped L item k = Inr s \<Longrightarrow> \<exists>kvs. item = JObj kvs"
  by (cases item) (auto simp: get_stripped_def)

lemma get_stripped_nonempty_key:
  "get_stripped L (JObj kvs) k = Inr s \<Longrightarrow> s \<noteq> [] \<Longrightarrow> k \<in> fst ` set kvs"
  by (auto simp: get_stripped_def strip_def split: option.splits if_splits json.splits
      dest!: map_of_SomeD intro!: image_eqI[where x="(k, _)"])

lemma prepare_objects:
  "prepare L i items = Inr (marked, tasks) \<Longrightarrow> \<forall>x\<in>set items. \<exists>kvs. x = JObj kvs"
proof (induction items arbitrary: i marked tasks)
  case Nil
  then show ?case by simp
next
  case (Cons item rest)
  then show ?case
    by (auto split: sum.splits if_splits prod.splits dest: get_stripped_obj)
qed

lemma prepare_indices:
  "prepare L i items = Inr (marked, tasks) \<Longrightarrow>
     mset (map fst marked) + mset (map fst tasks) = mset [i..<i + length items]"
proof (induction items arbitrary: i marked tasks)
  case Nil
  then show ?case by simp
next
  case (Cons item rest)
  from Cons.prems obtain s m t where
    g: "get_stripped L item (ustr ''icon'') = Inr s" and p: "prepare L (Suc i) rest = Inr (m, t)"
    by (auto split: sum.splits)
  have "i < i + length (item # rest)" by simp
  from upt_conv_Cons[OF this]
  have up: "[i..<i + length (item # rest)] = i # [Suc i..<Suc i + length rest]" by simp
  have "mset (map fst marked) + mset (map fst tasks)
      = add_mset i (mset (map fst m) + mset (map fst t))"
    using Cons.prems g p by (cases "s = []") auto
  also have "\<dots> = add_mset i (mset [Suc i..<Suc i + length rest])"
    by (simp only: Cons.IH[OF p])
  also have "\<dots> = mset (i # [Suc i..<Suc i + length rest])"
    by (simp only: mset.simps)
  finally show ?case by (simp only: up)
qed

lemma prepare_tasks:
  "prepare L i items = Inr (marked, tasks) \<Longrightarrow> (j, item) \<in> set tasks \<Longrightarrow>
     i \<le> j \<and> j < i + length items \<and> item = items ! (j - i)
     \<and> (\<exists>s. get_stripped L item (ustr ''icon'') = Inr s \<and> s \<noteq> [])"
proof (induction items arbitrary: i marked tasks)
  case Nil
  then show ?case by simp
next
  case (Cons x rest)
  from Cons.prems obtain s m t where
    g: "get_stripped L x (ustr ''icon'') = Inr s" and p: "prepare L (Suc i) rest = Inr (m, t)"
    by (auto split: sum.splits)
  show ?case
  proof (cases "(j, item) \<in> set t")
    case True
    from Cons.IH[OF p True] have ih: "Suc i \<le> j \<and> j < Suc i + length rest
      \<and> item = rest ! (j - Suc i)
      \<and> (\<exists>s. get_stripped L item (ustr ''icon'') = Inr s \<and> s \<noteq> [])" .
    then have "j - i = Suc (j - Suc i)" by arith
    then have "(x # rest) ! (j - i) = rest ! (j - Suc i)" by simp
    with ih show ?thesis by auto
  next
    case False
    with Cons.prems g p have "s \<noteq> [] \<and> j = i \<and> item = x" by (auto split: if_splits)
    with g show ?thesis by simp
  qed
qed

lemma prepare_marked:
  "prepare L i items = Inr (marked, tasks) \<Longrightarrow> (j, ok, info) \<in> set marked \<Longrightarrow>
     i \<le> j \<and> j < i + length items \<and> ok = False \<and> info = ustr ''no_icon_url''
     \<and> get_stripped L (items ! (j - i)) (ustr ''icon'') = Inr []"
proof (induction items arbitrary: i marked tasks)
  case Nil
  then show ?case by simp
next
  case (Cons x rest)
  from Cons.prems obtain s m t where
    g: "get_stripped L x (ustr ''icon'') = Inr s" and p: "prepare L (Suc i) rest = Inr (m, t)"
    by (auto split: sum.splits)
  show ?case
  proof (cases "(j, ok, info) \<in> set m")
    case True
    from Cons.IH[OF p True] have ih: "Suc i \<le> j \<and> j < Suc i + length rest
      \<and> ok = False \<and> info = ustr ''no_icon_url''
      \<and> get_stripped L (rest ! (j - Suc i)) (ustr ''icon'') = Inr []" .
    then have "j - i = Suc (j - Suc i)" by arith
    then have "(x # rest) ! (j - i) = rest ! (j - Suc i)" by simp
    with ih show ?thesis by auto
  next
    case False
    with Cons.prems g p have "s = [] \<and> j = i \<and> ok = False \<and> info = ustr ''no_icon_url''"
      by (auto split: if_splits)
    with g show ?thesis by simp
  qed
qed

lemma collect_indices: "map fst (collect fut completed) = map fst completed"
  by (induction completed) (auto simp: collect_def split: sum.splits prod.splits)

lemma collect_set:
  "set (collect fut completed) =
     (\<lambda>(idx, item). case fut idx of Inr (ok, info, u) \<Rightarrow> (idx, ok, info)
        | Inl e \<Rightarrow> (idx, False, ustr ''exception:'' @ exn_str e)) ` set completed"
  by (simp add: collect_def)

lemma completes_all_set: "completes_all ac \<Longrightarrow> set (ac tasks) = set tasks"
  unfolding completes_all_def by (metis set_mset_mset)

lemma completes_all_fst: "completes_all ac \<Longrightarrow> mset (map fst (ac tasks)) = mset (map fst tasks)"
  unfolding completes_all_def by (metis mset_map)

lemma gather_indices:
  assumes "completes_all ac" and "gather L ac fut items = Inr results"
  shows "mset (map fst results) = mset [0..<length items]"
proof -
  from assms(2) obtain marked tasks where
    p: "prepare L 0 items = Inr (marked, tasks)" and
    r: "results = marked @ collect fut (ac tasks)"
    by (auto simp: gather_def split: sum.splits)
  have "mset (map fst results) = mset (map fst marked) + mset (map fst tasks)"
    using r completes_all_fst[OF assms(1), of tasks] by (simp add: collect_indices)
  with prepare_indices[OF p] show ?thesis by simp
qed

lemma gather_distinct:
  assumes "completes_all ac" and "gather L ac fut items = Inr results"
  shows "distinct (map fst results) \<and> set (map fst results) = {0..<length items}"
proof -
  from gather_indices[OF assms] have m: "mset (map fst results) = mset [0..<length items]" .
  have "distinct [0..<length items]" by simp
  with m have "distinct (map fst results)" by (metis mset_eq_imp_distinct_iff)
  moreover from m have "set (map fst results) = set [0..<length items]" by (metis set_mset_mset)
  ultimately show ?thesis by simp
qed

lemma apply_results_char:
  assumes "\<forall>x\<in>set data. \<exists>kvs. x = JObj kvs"
    and "\<forall>r\<in>set rs. fst r < length data"
    and "distinct (map fst rs)"
  shows "\<exists>out. apply_results rel wr rs data = Inr out \<and> length out = length data
     \<and> (\<forall>i info. (i, True, info) \<in> set rs \<longrightarrow> out ! i = with_icon (local_path rel wr info) (data ! i))
     \<and> (\<forall>i. (\<forall>info. (i, True, info) \<notin> set rs) \<longrightarrow> out ! i = data ! i)"
  using assms
proof (induction rs arbitrary: data)
  case Nil
  then show ?case by simp
next
  case (Cons r rest)
  obtain idx ok info where r: "r = (idx, ok, info)" by (cases r)
  from Cons.prems(3) r have fresh: "idx \<notin> fst ` set rest" and dist: "distinct (map fst rest)"
    by auto
  show ?case
  proof (cases ok)
    case False
    from Cons.prems(2) have "\<forall>r\<in>set rest. fst r < length data" by simp
    from Cons.IH[OF Cons.prems(1) this dist] obtain out where
      o: "apply_results rel wr rest data = Inr out" "length out = length data"
        "\<forall>i info. (i, True, info) \<in> set rest \<longrightarrow> out ! i = with_icon (local_path rel wr info) (data ! i)"
        "\<forall>i. (\<forall>info. (i, True, info) \<notin> set rest) \<longrightarrow> out ! i = data ! i"
      by blast
    with False r show ?thesis by auto
  next
    case True
    from Cons.prems(2) r have lt: "idx < length data" by simp
    with Cons.prems(1) obtain kvs where kvs: "data ! idx = JObj kvs"
      using nth_mem by blast
    let ?v = "with_icon (local_path rel wr info) (data ! idx)"
    let ?data = "data[idx := ?v]"
    have v: "?v = JObj (AList.update (ustr ''icon'') (JStr (local_path rel wr info)) kvs)"
      using kvs by (simp add: with_icon_def)
    have step: "apply_results rel wr (r # rest) data = apply_results rel wr rest ?data"
      using r True lt kvs v by simp
    have objs: "\<forall>x\<in>set ?data. \<exists>kvs. x = JObj kvs"
    proof
      fix x assume "x \<in> set ?data"
      then have "x = ?v \<or> x \<in> set data" using set_update_subset_insert by fastforce
      with v Cons.prems(1) show "\<exists>kvs. x = JObj kvs" by auto
    qed
    have bound: "\<forall>r\<in>set rest. fst r < length ?data" using Cons.prems(2) by simp
    from Cons.IH[OF objs bound dist] obtain out where
      o: "apply_results rel wr rest ?data = Inr out" "length out = length ?data"
        "\<forall>i info. (i, True, info) \<in> set rest \<longrightarrow> out ! i = with_icon (local_path rel wr info) (?data ! i)"
        "\<forall>i. (\<forall>info. (i, True, info) \<notin> set rest) \<longrightarrow> out ! i = ?data ! i"
      by blast
    have a: "out ! i = with_icon (local_path rel wr info') (data ! i)"
      if "(i, True, info') \<in> set (r # rest)" for i info'
    proof (cases "(i, True, info') \<in> set rest")
      case True
      then have "i \<in> fst ` set rest" by force
      with fresh have "i \<noteq> idx" by auto
      with o(3) True show ?thesis by simp
    next
      case False
      with that r have e: "i = idx" "info' = info" by auto
      from fresh have "\<forall>info. (idx, True, info) \<notin> set rest" by force
      with o(4) have "out ! idx = ?data ! idx" by blast
      with lt e show ?thesis by simp
    qed
    have b: "out ! i = data ! i" if "\<forall>info. (i, True, info) \<notin> set (r # rest)" for i
    proof -
      from that r True have "i \<noteq> idx" by auto
      moreover from that have "\<forall>info. (i, True, info) \<notin> set rest" by simp
      ultimately show ?thesis using o(4) by simp
    qed
    from step o(1,2) a b show ?thesis by auto
  qed
qed

lemma process_all_InrD:
  assumes "loaded io = Some (Inr (JArr items))"
    and "process_all L io ac fut backup wr = Inr out"
  shows "mkdir_error io = None \<and> (backup \<longrightarrow> backup_error io = None) \<and> persist_error io = None
    \<and> (\<exists>results. gather L ac fut items = Inr results
          \<and> apply_results (relative_to io) wr results items = Inr out)"
  using assms
  by (auto simp: process_all_def split: option.splits sum.splits if_splits)

lemma process_all_InrI:
  assumes "loaded io = Some (Inr (JArr items))"
    and "mkdir_error io = None" and "backup \<longrightarrow> backup_error io = None"
    and "persist_error io = None"
    and "gather L ac fut items = Inr results"
    and "apply_results (relative_to io) wr results items = Inr out"
  shows "process_all L io ac fut backup wr = Inr out"
  using assms by (auto simp: process_all_def)

lemma gather_set:
  assumes "completes_all ac" and "prepare L 0 items = Inr (marked, tasks)"
  shows "gather L ac fut items = Inr (marked @ collect fut (ac tasks))"
    and "set (marked @ collect fut (ac tasks)) = set marked \<union> set (collect fut tasks)"
  using assms by (simp_all add: gather_def collect_set completes_all_set)

lemma gather_prepare:
  assumes "gather L ac fut items = Inr results"
  obtains marked tasks where "prepare L 0 items = Inr (marked, tasks)"
    and "results = marked @ collect fut (ac tasks)"
    and "dispatched L items = tasks"
  using assms by (auto simp: gather_def dispatched_def split: sum.splits)

lemma merged_char:
  assumes ca: "completes_all ac" and g: "gather L ac fut items = Inr results"
  shows "\<exists>out. apply_results rel wr results items = Inr out \<and> length out = length items
     \<and> (\<forall>i info. (i, True, info) \<in> set results
           \<longrightarrow> out ! i = with_icon (local_path rel wr info) (items ! i))
     \<and> (\<forall>i. (\<forall>info. (i, True, info) \<notin> set results) \<longrightarrow> out ! i = items ! i)"
proof (rule apply_results_char)
  from g obtain marked tasks where "prepare L 0 items = Inr (marked, tasks)"
    by (rule gather_prepare)
  then show "\<forall>x\<in>set items. \<exists>kvs. x = JObj kvs" by (rule prepare_objects)
  from gather_distinct[OF ca g] show "distinct (map fst results)" by simp
  from gather_distinct[OF ca g] have "fst ` set results = {0..<length items}" by simp
  then have "\<And>r. r \<in> set results \<Longrightarrow> fst r \<in> {0..<length items}" by blast
  then show "\<forall>r\<in>set results. fst r < length items" by simp
qed

lemma success_in_results:
  assumes ca: "completes_all ac" and g: "gather L ac fut items = Inr results"
  shows "(i, True, info) \<in> set results
     \<longleftrightarrow> (\<exists>item u. (i, item) \<in> set (dispatched L items) \<and> fut i = Inr (True, info, u))"
proof -
  from g obtain marked tasks where p: "prepare L 0 items = Inr (marked, tasks)"
    and r: "results = marked @ collect fut (ac tasks)" and d: "dispatched L items = tasks"
    by (rule gather_prepare)
  have m: "(i, True, info) \<notin> set marked" using prepare_marked[OF p] by blast
  have "(i, True, info) \<in> set (collect fut tasks)
      \<longleftrightarrow> (\<exists>item u. (i, item) \<in> set tasks \<and> fut i = Inr (True, info, u))"
    by (force simp: collect_set split: sum.splits prod.splits)
  with m r d gather_set(2)[OF ca p, of fut] show ?thesis by simp
qed

lemma with_icon_other_fields:
  "k \<noteq> ustr ''icon'' \<Longrightarrow> field (with_icon v item) k = field item k"
  by (cases item) (simp_all add: with_icon_def field_def update_conv')

lemma with_icon_icon:
  "item = JObj kvs \<Longrightarrow> field (with_icon v item) (ustr ''icon'') = Some (JStr v)"
  by (simp add: with_icon_def field_def update_conv')

lemma with_icon_names:
  "item = JObj kvs \<Longrightarrow> ustr ''icon'' \<in> fst ` set kvs \<Longrightarrow>
     field_names (with_icon v item) = field_names item"
  by (simp add: with_icon_def field_names_def update_keys)

lemma dispatched_item:
  assumes "(i, item) \<in> set (dispatched L items)"
  shows "i < length items \<and> item = items ! i
    \<and> (\<exists>kvs. item = JObj kvs \<and> ustr ''icon'' \<in> fst ` set kvs)"
proof (cases "prepare L 0 items")
  case (Inl e)
  with assms show ?thesis by (simp add: dispatched_def)
next
  case (Inr r)
  obtain marked tasks where r: "r = (marked, tasks)" by (cases r)
  with Inr assms have "(i, item) \<in> set tasks" by (simp add: dispatched_def)
  from prepare_tasks[OF Inr[unfolded r] this] obtain s where
    f: "i < length items" "item = items ! i"
      "get_stripped L item (ustr ''icon'') = Inr s" "s \<noteq> []" by auto
  from get_stripped_obj[OF f(3)] obtain kvs where k: "item = JObj kvs" by blast
  with f(3,4) get_stripped_nonempty_key have "ustr ''icon'' \<in> fst ` set kvs" by blast
  with f k show ?thesis by blast
qed

text \<open>
  Claim C1. In a run that reaches the final write, a record whose task returned success
  with path \<open>info\<close> has \<open>info\<close> in its icon field, or, in relative mode, \<open>info\<close> made
  relative to the directory of the record file, and \<open>info\<close> itself when that is not
  possible. Every other record (its task returned a failure or raised, or no task was
  dispatched for it) is the record of the input, unchanged.
\<close>

theorem merge_writes_icon_of_successes_only:
  assumes "completes_all ac"
    and "loaded io = Some (Inr (JArr items))"
    and "process_all L io ac fut backup wr = Inr out"
  shows "(\<forall>item info u. (i, item) \<in> set (dispatched L items) \<and> fut i = Inr (True, info, u)
            \<longrightarrow> field (out ! i) (ustr ''icon'')
                = Some (JStr (if wr then (case relative_to io info of Some r \<Rightarrow> r | None \<Rightarrow> info)
                              else info)))
    \<and> ((\<forall>item info u. (i, item) \<in> set (dispatched L items) \<longrightarrow> fut i \<noteq> Inr (True, info, u))
          \<longrightarrow> out ! i = items ! i)"
proof -
  from process_all_InrD[OF assms(2,3)] obtain results where
    g: "gather L ac fut items = Inr results" and
    a: "apply_results (relative_to io) wr results items = Inr out" by blast
  from merged_char[OF assms(1) g, of "relative_to io" wr] a have
    c1: "\<forall>i info. (i, True, info) \<in> set results
           \<longrightarrow> out ! i = with_icon (local_path (relative_to io) wr info) (items ! i)" and
    c2: "\<forall>i. (\<forall>info. (i, True, info) \<notin> set results) \<longrightarrow> out ! i = items ! i"
    by auto
  note s = success_in_results[OF assms(1) g]
  have p1: "field (out ! i) (ustr ''icon'')
      = Some (JStr (if wr then (case relative_to io info of Some r \<Rightarrow> r | None \<Rightarrow> info) else info))"
    if "(i, item) \<in> set (dispatched L items)" "fut i = Inr (True, info, u)" for item info u
  proof -
    from that s have "(i, True, info) \<in> set results" by blast
    with c1 have o: "out ! i = with_icon (local_path (relative_to io) wr info) (items ! i)" by blast
    from dispatched_item[OF that(1)] obtain kvs where "items ! i = JObj kvs" by auto
    from with_icon_icon[OF this] o show ?thesis by (simp add: local_path_def)
  qed
  have p2: "out ! i = items ! i"
    if "\<forall>item info u. (i, item) \<in> set (dispatched L items) \<longrightarrow> fut i \<noteq> Inr (True, info, u)"
  proof -
    from that s have "\<forall>info. (i, True, info) \<notin> set results" by blast
    with c2 show ?thesis by blast
  qed
  from p1 p2 show ?thesis by blast
qed

lemma completes_all_rev: "completes_all rev"
  by (simp add: completes_all_def)

lemma sample_run: "process_all sample_lib sample_run_io rev sample_fut True True = Inr sample_out"
  by code_simp

lemma sample_dispatched: "(0, sample_items ! 0) \<in> set (dispatched sample_lib sample_items)"
  by code_simp

theorem merge_writes_icon_of_successes_only_witness:
  "completes_all rev
   \<and> loaded sample_run_io = Some (Inr (JArr sample_items))
   \<and> process_all sample_lib sample_run_io rev sample_fut True True = Inr sample_out
   \<and> (0, sample_items ! 0) \<in> set (dispatched sample_lib sample_items)
   \<and> sample_fut 0 = Inr (True, ustr ''/home/icons/Example.ico'', - 1)
   \<and> field (sample_out ! 0) (ustr ''icon'') = Some (JStr (ustr ''icons/Example.ico''))
   \<and> sample_out ! 1 = sample_items ! 1"
proof -
  have l: "loaded sample_run_io = Some (Inr (JArr sample_items))"
    by (simp add: sample_run_io_def)
  have f: "sample_fut 0 = Inr (True, ustr ''/home/icons/Example.ico'', - 1)"
    by (simp add: sample_fut_def)
  have r: "relative_to sample_run_io (ustr ''/home/icons/Example.ico'') = Some (ustr ''icons/Example.ico'')"
    by code_simp
  have n: "\<forall>item info u. (1, item) \<in> set (dispatched sample_lib sample_items)
      \<longrightarrow> sample_fut 1 \<noteq> Inr (True, info, u)"
    by (simp add: sample_fut_def)
  from merge_writes_icon_of_successes_only[OF completes_all_rev l sample_run, of 0]
    sample_dispatched f r
  have a: "field (sample_out ! 0) (ustr ''icon'') = Some (JStr (ustr ''icons/Example.ico''))"
    by fastforce
  from merge_writes_icon_of_successes_only[OF completes_all_rev l sample_run, of 1] n
  have b: "sample_out ! 1 = sample_items ! 1" by blast
  from completes_all_rev l sample_run sample_dispatched f a b show ?thesis by blast
qed

theorem sanitizers_give_safe_names_witness:
  "unicode_ok sample_lib
   \<and> safe_filename_unicode sample_lib [32, 1055, 1088, 47, 97, 9, 10, 98, 37, 52, 49, 33] 120
       = [1055, 1088, 95, 97, 95, 98, 65]
   \<and> ascii_fallback_name sample_lib [1055, 1088, 95, 97, 95, 98, 65] 80 = [95, 97, 95, 98, 65]
   \<and> list_all (\<lambda>c. \<not> is_control c)
       (safe_filename_unicode sample_lib [32, 1055, 1088, 47, 97, 9, 10, 98, 37, 52, 49, 33] 120)
   \<and> clean_unicode sample_lib [37, 50, 48, 33] = []
   \<and> safe_filename_unicode sample_lib [37, 50, 48, 33] 120 = ustr ''file''
   \<and> filter keep_ascii (filter (\<lambda>c. c < 128) [1055, 1088]) = []
   \<and> ascii_fallback_name sample_lib [1055, 1088] 80 = ustr ''file''"
proof -
  have c: "clean_unicode sample_lib [37, 50, 48, 33] = []" by code_simp
  have k: "filter keep_ascii (filter (\<lambda>c. c < 128) [1055, 1088]) = []" by code_simp
  have e1: "safe_filename_unicode sample_lib [32, 1055, 1088, 47, 97, 9, 10, 98, 37, 52, 49, 33] 120
       = [1055, 1088, 95, 97, 95, 98, 65]" by code_simp
  have e2: "ascii_fallback_name sample_lib [1055, 1088, 95, 97, 95, 98, 65] 80 = [95, 97, 95, 98, 65]"
    by code_simp
  from sanitizers_give_safe_names[OF unicode_ok_sample,
      of "[32, 1055, 1088, 47, 97, 9, 10, 98, 37, 52, 49, 33]"]
  have a: "list_all (\<lambda>c. \<not> is_control c)
       (safe_filename_unicode sample_lib [32, 1055, 1088, 47, 97, 9, 10, 98, 37, 52, 49, 33] 120)"
    by (simp add: list_all_iff)
  from sanitizers_give_safe_names[OF unicode_ok_sample, of "[37, 50, 48, 33]"] c
  have f1: "safe_filename_unicode sample_lib [37, 50, 48, 33] 120 = ustr ''file''" by simp
  from sanitizers_give_safe_names[OF unicode_ok_sample, of "[1055, 1088]"] k
  have f2: "ascii_fallback_name sample_lib [1055, 1088] 80 = ustr ''file''" by simp
  from unicode_ok_sample e1 e2 a c f1 k f2 show ?thesis by blast
qed

theorem sanitize_idempotent_witness:
  "unicode_ok sample_lib \<and> unquote_ok sample_lib
   \<and> safe_filename_unicode sample_lib [37, 50, 53, 52, 49, 32, 1055] 120 = [52, 49, 95, 1055]
   \<and> safe_filename_unicode sample_lib [52, 49, 95, 1055] 120 = [52, 49, 95, 1055]"
proof -
  have e: "safe_filename_unicode sample_lib [37, 50, 53, 52, 49, 32, 1055] 120 = [52, 49, 95, 1055]"
    by code_simp
  from sanitize_idempotent[OF unicode_ok_sample unquote_ok_sample, of "[37, 50, 53, 52, 49, 32, 1055]"] e
  have "safe_filename_unicode sample_lib [52, 49, 95, 1055] 120 = [52, 49, 95, 1055]" by simp
  with unicode_ok_sample unquote_ok_sample e show ?thesis by blast
qed

theorem whitespace_only_gives_file_witness:
  "unquote_ok sample_lib \<and> [32, 9, 160] \<noteq> [] \<and> list_all (isspace sample_lib) [32, 9, 160]
   \<and> safe_filename_unicode sample_lib [32, 9, 160] 120 = ustr ''file''
   \<and> safe_filename_unicode sample_lib [] 120 = ustr ''unnamed''"
proof -
  have s: "\<forall>c\<in>set [32, 9, 160]. isspace sample_lib c" by code_simp
  have n: "[32, 9, 160] \<noteq> ([] :: ustring)" by simp
  note t = whitespace_only_gives_file[OF unquote_ok_sample n s, of 120]
  from t have a: "safe_filename_unicode sample_lib [32, 9, 160] 120 = ustr ''file''" by blast
  from t have b: "safe_filename_unicode sample_lib [] 120 = ustr ''unnamed''" by blast
  from unquote_ok_sample s a b show ?thesis by (simp add: list_all_iff)
qed

lemma escape_char_high: "filter (\<lambda>c. 128 \<le> c) (escape_char c) = (if 128 \<le> c then [c] else [])"
  by (auto simp: escape_char_def hex_digit_def)

lemma encode_basestring_high:
  "filter (\<lambda>c. 128 \<le> c) (encode_basestring s) = filter (\<lambda>c. 128 \<le> c) s"
proof -
  have "filter (\<lambda>c. 128 \<le> c) (concat (map escape_char s)) = filter (\<lambda>c. 128 \<le> c) s"
    by (induction s) (simp_all add: escape_char_high)
  then show ?thesis by (simp add: encode_basestring_def)
qed

lemma results_same_set:
  assumes "completes_all ac" and "completes_all ac'"
    and "gather L ac fut items = Inr results" and "gather L ac' fut items = Inr results'"
  shows "set results = set results'"
proof -
  from assms(3) obtain marked tasks where p: "prepare L 0 items = Inr (marked, tasks)"
    and r: "results = marked @ collect fut (ac tasks)"
    by (rule gather_prepare)
  from gather_set(1)[OF assms(2) p, of fut] assms(4)
  have r': "results' = marked @ collect fut (ac' tasks)" by simp
  from gather_set(2)[OF assms(1) p, of fut] gather_set(2)[OF assms(2) p, of fut] r r'
  show ?thesis by simp
qed

lemma gather_any_order:
  assumes "gather L ac fut items = Inr results"
  shows "\<exists>results'. gather L ac' fut items = Inr results'"
  using assms by (auto simp: gather_def split: sum.splits)

lemma record_kept_or_icon_set:
  assumes ca: "completes_all ac" and g: "gather L ac fut items = Inr results"
    and a: "apply_results rel wr results items = Inr out" and i: "i < length items"
  shows "out ! i = items ! i
    \<or> (\<exists>v kvs. out ! i = with_icon v (items ! i) \<and> items ! i = JObj kvs
          \<and> ustr ''icon'' \<in> fst ` set kvs)"
proof (cases "\<exists>info. (i, True, info) \<in> set results")
  case True
  then obtain info where t: "(i, True, info) \<in> set results" by blast
  with merged_char[OF ca g, of rel wr] a
  have o: "out ! i = with_icon (local_path rel wr info) (items ! i)" by auto
  from t success_in_results[OF ca g] obtain item where "(i, item) \<in> set (dispatched L items)"
    by blast
  from dispatched_item[OF this] o show ?thesis by blast
next
  case False
  with merged_char[OF ca g, of rel wr] a show ?thesis by auto
qed

text \<open>
  Claim C2. In a run that reaches the final write, the collection written has as many
  records as the input, record \<open>i\<close> of the output is record \<open>i\<close> of the input with
  the same keys in the same order and the same value under every key other than
  \<open>icon\<close>, and every completion order of the tasks gives the same output. Strings are
  written with \<open>ensure_ascii=False\<close>: the code points from 128 on of a string are in
  the written text as they are, in the same order.
\<close>

theorem output_keeps_records_in_order:
  assumes "completes_all ac"
    and "loaded io = Some (Inr (JArr items))"
    and "process_all L io ac fut backup wr = Inr out"
  shows "length out = length items
    \<and> (\<forall>i<length items. field_names (out ! i) = field_names (items ! i)
          \<and> (\<forall>k. k \<noteq> ustr ''icon'' \<longrightarrow> field (out ! i) k = field (items ! i) k))
    \<and> (\<forall>ac'. completes_all ac' \<longrightarrow> process_all L io ac' fut backup wr = Inr out)
    \<and> (\<forall>s. filter (\<lambda>c. 128 \<le> c) (encode_basestring s) = filter (\<lambda>c. 128 \<le> c) s)"
proof -
  from process_all_InrD[OF assms(2,3)] obtain results where
    io: "mkdir_error io = None" "backup \<longrightarrow> backup_error io = None" "persist_error io = None" and
    g: "gather L ac fut items = Inr results" and
    a: "apply_results (relative_to io) wr results items = Inr out" by blast
  from merged_char[OF assms(1) g, of "relative_to io" wr] a have
    len: "length out = length items" and
    c1: "\<forall>i info. (i, True, info) \<in> set results
           \<longrightarrow> out ! i = with_icon (local_path (relative_to io) wr info) (items ! i)" and
    c2: "\<forall>i. (\<forall>info. (i, True, info) \<notin> set results) \<longrightarrow> out ! i = items ! i"
    by auto
  have fields: "field_names (out ! i) = field_names (items ! i)
      \<and> (\<forall>k. k \<noteq> ustr ''icon'' \<longrightarrow> field (out ! i) k = field (items ! i) k)"
    if "i < length items" for i
  proof -
    from record_kept_or_icon_set[OF assms(1) g a that] show ?thesis
    proof
      assume "out ! i = items ! i"
      then show ?thesis by simp
    next
      assume "\<exists>v kvs. out ! i = with_icon v (items ! i) \<and> items ! i = JObj kvs
          \<and> ustr ''icon'' \<in> fst ` set kvs"
      then obtain v kvs where o: "out ! i = with_icon v (items ! i)"
        and k: "items ! i = JObj kvs" "ustr ''icon'' \<in> fst ` set kvs" by blast
      from with_icon_names[OF k, of v] o show ?thesis
        by (simp add: with_icon_other_fields)
    qed
  qed
  have order: "process_all L io ac' fut backup wr = Inr out" if ca': "completes_all ac'" for ac'
  proof -
    from gather_any_order[OF g] obtain results' where
      g': "gather L ac' fut items = Inr results'" by blast
    from merged_char[OF ca' g', of "relative_to io" wr] obtain out' where
      a': "apply_results (relative_to io) wr results' items = Inr out'" and
      len': "length out' = length items" and
      d1: "\<forall>i info. (i, True, info) \<in> set results'
             \<longrightarrow> out' ! i = with_icon (local_path (relative_to io) wr info) (items ! i)" and
      d2: "\<forall>i. (\<forall>info. (i, True, info) \<notin> set results') \<longrightarrow> out' ! i = items ! i"
      by blast
    have same: "set results = set results'"
      by (rule results_same_set[OF assms(1) ca' g g'])
    have "out' ! i = out ! i" for i
    proof (cases "\<exists>info. (i, True, info) \<in> set results")
      case True
      then obtain info where "(i, True, info) \<in> set results" by blast
      with c1 d1 same show ?thesis by simp
    next
      case False
      with c2 d2 same show ?thesis by simp
    qed
    with len len' have "out' = out" by (simp add: nth_equalityI)
    with a' have "apply_results (relative_to io) wr results' items = Inr out" by simp
    from process_all_InrI[OF assms(2) io g' this] show ?thesis .
  qed
  from len fields order encode_basestring_high show ?thesis by blast
qed

lemma download_icon_no_icon:
  assumes "get_stripped L item (ustr ''icon'') = Inr []"
  shows "snd (download_icon L E w item) = w
    \<and> (\<forall>r. fst (download_icon L E w item) = Inr r \<longrightarrow> r = (False, ustr ''no_icon_url'', - 1))"
  using assms by (auto simp: download_icon_def split: sum.splits)

lemma index_in_results:
  assumes "completes_all ac" and "gather L ac fut items = Inr results" and "i < length items"
  shows "\<exists>ok info. (i, ok, info) \<in> set results"
proof -
  from gather_distinct[OF assms(1,2)] assms(3) have "i \<in> fst ` set results" by simp
  then show ?thesis by force
qed

lemma not_dispatched_marked:
  assumes ca: "completes_all ac" and g: "gather L ac fut items = Inr results"
    and i: "i < length items" and e: "get_stripped L (items ! i) (ustr ''icon'') = Inr []"
  shows "i \<notin> fst ` set (dispatched L items)
    \<and> (\<forall>ok info. (i, ok, info) \<in> set results \<longrightarrow> ok = False \<and> info = ustr ''no_icon_url'')"
proof -
  from g obtain marked tasks where p: "prepare L 0 items = Inr (marked, tasks)"
    and r: "results = marked @ collect fut (ac tasks)" and d: "dispatched L items = tasks"
    by (rule gather_prepare)
  have nt: "i \<notin> fst ` set tasks"
  proof
    assume "i \<in> fst ` set tasks"
    then obtain item where t: "(i, item) \<in> set tasks" by force
    from prepare_tasks[OF p t] e show False by auto
  qed
  have "set results = set marked \<union> set (collect fut tasks)"
    using gather_set(2)[OF ca p, of fut] r by simp
  moreover have "fst ` set (collect fut tasks) = fst ` set tasks"
    using collect_indices[of fut tasks] by (metis set_map)
  ultimately have "(i, ok, info) \<in> set results \<Longrightarrow> (i, ok, info) \<in> set marked" for ok info
    using nt by force
  with prepare_marked[OF p] nt d show ?thesis by blast
qed

text \<open>
  Claim C6. A record whose icon is empty after stripping gets the single outcome
  \<open>(i, False, 'no_icon_url')\<close>, is not among the dispatched tasks, and is unchanged
  in the output. \<open>download_icon\<close> itself, called on such a record, leaves the world as
  it is (no request, no file) and, when it returns, returns \<open>(False, 'no_icon_url', -1)\<close>.
\<close>

theorem empty_icon_is_marked_not_fetched:
  assumes "completes_all ac"
    and "loaded io = Some (Inr (JArr items))"
    and "process_all L io ac fut backup wr = Inr out"
    and "gather L ac fut items = Inr results"
    and "i < length items"
    and "get_stripped L (items ! i) (ustr ''icon'') = Inr []"
  shows "(i, False, ustr ''no_icon_url'') \<in> set results
    \<and> (\<forall>ok info. (i, ok, info) \<in> set results \<longrightarrow> ok = False \<and> info = ustr ''no_icon_url'')
    \<and> i \<notin> fst ` set (dispatched L items)
    \<and> out ! i = items ! i
    \<and> snd (download_icon L E w (items ! i)) = w
    \<and> (\<forall>r. fst (download_icon L E w (items ! i)) = Inr r \<longrightarrow> r = (False, ustr ''no_icon_url'', - 1))"
proof -
  note nd = not_dispatched_marked[OF assms(1,4,5,6)]
  from index_in_results[OF assms(1,4,5)] nd
  have m: "(i, False, ustr ''no_icon_url'') \<in> set results" by blast
  from process_all_InrD[OF assms(2,3)] assms(4)
  have a: "apply_results (relative_to io) wr results items = Inr out" by auto
  from nd have "\<forall>info. (i, True, info) \<notin> set results" by blast
  with merged_char[OF assms(1,4), of "relative_to io" wr] a
  have o: "out ! i = items ! i" by auto
  from m nd o download_icon_no_icon[OF assms(6), of E w] show ?thesis by blast
qed

lemma raised_in_results:
  assumes ca: "completes_all ac" and g: "gather L ac fut items = Inr results"
    and t: "(idx, item) \<in> set (dispatched L items)" and f: "fut idx = Inl e"
  shows "(idx, False, ustr ''exception:'' @ exn_str e) \<in> set results"
proof -
  from g obtain marked tasks where p: "prepare L 0 items = Inr (marked, tasks)"
    and r: "results = marked @ collect fut (ac tasks)" and d: "dispatched L items = tasks"
    by (rule gather_prepare)
  from t d f have "(idx, False, ustr ''exception:'' @ exn_str e) \<in> set (collect fut tasks)"
    by (force simp: collect_set)
  with gather_set(2)[OF ca p, of fut] r show ?thesis by simp
qed

text \<open>
  Claim C8. When the merge begins, \<open>results\<close> holds exactly one outcome for every index
  of the input: the indices of \<open>results\<close> are a rearrangement of \<open>0, ..., n-1\<close>. A task
  whose future raises \<open>e\<close> is recorded as the failure \<open>(idx, False, 'exception:' + str(e))\<close>,
  and the run still reaches its final write whatever the futures return or raise. The
  source has no enumeration of failure reasons: a failure is \<open>ok = False\<close> with a text,
  and the text of this one starts with \<open>exception:\<close>.
\<close>

theorem one_outcome_per_record:
  assumes "completes_all ac"
    and "gather L ac fut items = Inr results"
  shows "mset (map fst results) = mset [0..<length items]
    \<and> (\<forall>idx item e. (idx, item) \<in> set (dispatched L items) \<and> fut idx = Inl e
          \<longrightarrow> (idx, False, ustr ''exception:'' @ exn_str e) \<in> set results)
    \<and> (loaded io = Some (Inr (JArr items)) \<and> mkdir_error io = None
         \<and> (backup \<longrightarrow> backup_error io = None) \<and> persist_error io = None
        \<longrightarrow> (\<exists>out. process_all L io ac fut backup wr = Inr out))"
proof -
  have run: "\<exists>out. process_all L io ac fut backup wr = Inr out"
    if "loaded io = Some (Inr (JArr items))" "mkdir_error io = None"
      "backup \<longrightarrow> backup_error io = None" "persist_error io = None"
  proof -
    from merged_char[OF assms, of "relative_to io" wr] obtain out where
      "apply_results (relative_to io) wr results items = Inr out" by blast
    from process_all_InrI[OF that assms(2) this] show ?thesis by blast
  qed
  from gather_indices[OF assms] raised_in_results[OF assms] run show ?thesis by blast
qed

lemma sample_gather:
  "gather sample_lib rev sample_fut sample_items =
     Inr [(1, False, ustr ''no_icon_url''),
          (3, False, ustr ''exception:Invalid IPv6 URL''),
          (2, False, ustr ''http_404''),
          (0, True, ustr ''/home/icons/Example.ico'')]"
  by code_simp

theorem output_keeps_records_in_order_witness:
  "completes_all rev \<and> completes_all id
   \<and> loaded sample_run_io = Some (Inr (JArr sample_items))
   \<and> process_all sample_lib sample_run_io rev sample_fut True True = Inr sample_out
   \<and> length sample_out = length sample_items
   \<and> field (sample_out ! 0) (ustr ''title'') = field (sample_items ! 0) (ustr ''title'')
   \<and> field_names (sample_out ! 0) = field_names (sample_items ! 0)
   \<and> process_all sample_lib sample_run_io id sample_fut True True = Inr sample_out"
proof -
  have l: "loaded sample_run_io = Some (Inr (JArr sample_items))"
    by (simp add: sample_run_io_def)
  have i: "completes_all id" by (simp add: completes_all_def)
  have n: "0 < length sample_items" by (simp add: sample_items_def)
  have k: "ustr ''title'' \<noteq> ustr ''icon''" by (simp add: ustr_def)
  note t = output_keeps_records_in_order[OF completes_all_rev l sample_run]
  from t have a: "length sample_out = length sample_items" by blast
  from t n k have b: "field (sample_out ! 0) (ustr ''title'') = field (sample_items ! 0) (ustr ''title'')"
    by blast
  from t n have c: "field_names (sample_out ! 0) = field_names (sample_items ! 0)" by blast
  from t i have d: "process_all sample_lib sample_run_io id sample_fut True True = Inr sample_out"
    by blast
  from completes_all_rev i l sample_run a b c d show ?thesis by blast
qed

theorem empty_icon_is_marked_not_fetched_witness:
  "completes_all rev
   \<and> loaded sample_run_io = Some (Inr (JArr sample_items))
   \<and> process_all sample_lib sample_run_io rev sample_fut True True = Inr sample_out
   \<and> 1 < length sample_items
   \<and> get_stripped sample_lib (sample_items ! 1) (ustr ''icon'') = Inr []
   \<and> 1 \<notin> fst ` set (dispatched sample_lib sample_items)
   \<and> sample_out ! 1 = sample_items ! 1
   \<and> download_icon sample_lib sample_env empty_world (sample_items ! 1)
       = (Inr (False, ustr ''no_icon_url'', - 1), empty_world)"
proof -
  have l: "loaded sample_run_io = Some (Inr (JArr sample_items))"
    by (simp add: sample_run_io_def)
  have n: "1 < length sample_items" by (simp add: sample_items_def)
  have e: "get_stripped sample_lib (sample_items ! 1) (ustr ''icon'') = Inr []" by code_simp
  have d: "download_icon sample_lib sample_env empty_world (sample_items ! 1)
       = (Inr (False, ustr ''no_icon_url'', - 1), empty_world)" by code_simp
  note t = empty_icon_is_marked_not_fetched[OF completes_all_rev l sample_run sample_gather n e]
  from t have a: "1 \<notin> fst ` set (dispatched sample_lib sample_items)" by blast
  from t have b: "sample_out ! 1 = sample_items ! 1" by blast
  from completes_all_rev l sample_run n e a b d show ?thesis by blast
qed

theorem one_outcome_per_record_witness:
  "completes_all rev
   \<and> gather sample_lib rev sample_fut sample_items =
       Inr [(1, False, ustr ''no_icon_url''),
            (3, False, ustr ''exception:Invalid IPv6 URL''),
            (2, False, ustr ''http_404''),
            (0, True, ustr ''/home/icons/Example.ico'')]
   \<and> (3, sample_items ! 3) \<in> set (dispatched sample_lib sample_items)
   \<and> sample_fut 3 = Inl (ValueError (ustr ''Invalid IPv6 URL''))
   \<and> fst (download_icon sample_lib sample_env empty_world (sample_items ! 3))
       = Inl (ValueError (ustr ''Invalid IPv6 URL''))
   \<and> mset (map fst [(1, False, ustr ''no_icon_url''),
            (3, False, ustr ''exception:Invalid IPv6 URL''),
            (2, False, ustr ''http_404''),
            (0::nat, True, ustr ''/home/icons/Example.ico'')]) = mset [0..<length sample_items]
   \<and> process_all sample_lib sample_run_io rev sample_fut True True = Inr sample_out"
proof -
  have d: "(3, sample_items ! 3) \<in> set (dispatched sample_lib sample_items)" by code_simp
  have f: "sample_fut 3 = Inl (ValueError (ustr ''Invalid IPv6 URL''))"
    by (simp add: sample_fut_def)
  have dl: "fst (download_icon sample_lib sample_env empty_world (sample_items ! 3))
       = Inl (ValueError (ustr ''Invalid IPv6 URL''))" by code_simp
  have io: "loaded sample_run_io = Some (Inr (JArr sample_items)) \<and> mkdir_error sample_run_io = None
         \<and> (True \<longrightarrow> backup_error sample_run_io = None) \<and> persist_error sample_run_io = None"
    by (simp add: sample_run_io_def sample_io_def)
  note t = one_outcome_per_record[OF completes_all_rev sample_gather, of sample_run_io True True]
  from t have a: "mset (map fst [(1, False, ustr ''no_icon_url''),
            (3, False, ustr ''exception:Invalid IPv6 URL''),
            (2, False, ustr ''http_404''),
            (0::nat, True, ustr ''/home/icons/Example.ico'')]) = mset [0..<length sample_items]"
    by blast
  from t io have b: "\<exists>out. process_all sample_lib sample_run_io rev sample_fut True True = Inr out"
    by blast
  from completes_all_rev sample_gather d f dl a b sample_run show ?thesis by blast
qed

section \<open>Properties of the writer and of the fetch task\<close>

lemma nth_candidate_Suc: "nth_candidate base ext (Suc k) = candidate base ext (Suc k)"
  by (simp add: nth_candidate_def)

lemma find_free_stops:
  assumes "path_exists E w filename \<noteq> Inr True"
  shows "find_free E w base ext filename idx =
     (case path_exists E w filename of Inl e \<Rightarrow> Inl e | Inr b \<Rightarrow> Inr filename)"
  using assms by (subst find_free.simps) (auto split: sum.splits)

lemma find_free_goes_on:
  assumes "path_exists E w filename = Inr True"
  shows "find_free E w base ext filename idx
       = find_free E w base ext (candidate base ext idx) (Suc idx)"
  using assms by (subst find_free.simps) simp

lemma find_free_first:
  assumes "path_exists E w (candidate base ext k) \<noteq> Inr True"
    and "idx \<le> k"
    and "\<forall>j. idx \<le> j \<and> j < k \<longrightarrow> path_exists E w (candidate base ext j) = Inr True"
    and "path_exists E w filename = Inr True"
  shows "find_free E w base ext filename idx =
     (case path_exists E w (candidate base ext k) of
        Inl e \<Rightarrow> Inl e
      | Inr b \<Rightarrow> Inr (candidate base ext k))"
  using assms(2,3,4)
proof (induction "k - idx" arbitrary: idx filename)
  case 0
  then have "idx = k" by simp
  with 0(4) assms(1) show ?case
    by (simp add: find_free_goes_on find_free_stops)
next
  case (Suc n)
  then have lt: "idx < k" by simp
  with Suc(4) have t: "path_exists E w (candidate base ext idx) = Inr True" by simp
  have "find_free E w base ext (candidate base ext idx) (Suc idx) =
     (case path_exists E w (candidate base ext k) of
        Inl e \<Rightarrow> Inl e
      | Inr b \<Rightarrow> Inr (candidate base ext k))"
  proof (rule Suc(1))
    show "n = k - Suc idx" using Suc(2) by simp
    show "Suc idx \<le> k" using lt by simp
    show "\<forall>j. Suc idx \<le> j \<and> j < k \<longrightarrow> path_exists E w (candidate base ext j) = Inr True"
      using Suc(4) by simp
    show "path_exists E w (candidate base ext idx) = Inr True" by (rule t)
  qed
  with Suc(5) show ?case by (simp add: find_free_goes_on)
qed

text \<open>A finite world has a candidate that does not exist.\<close>

lemma some_candidate_absent:
  "\<exists>k. path_exists E w (nth_candidate base ext k) \<noteq> Inr True"
proof -
  have "path_exists E w (candidate base ext (10 ^ name_room w)) \<noteq> Inr True"
    using candidate_index_bound[of E w base ext "10 ^ name_room w"] by auto
  then have "path_exists E w (nth_candidate base ext (10 ^ name_room w)) \<noteq> Inr True"
    by (simp add: nth_candidate_def)
  then show ?thesis by blast
qed

text \<open>
  The search stops at the first candidate at which \<open>exists()\<close> does not return \<open>True\<close>: it
  returns that candidate when \<open>exists()\<close> returns \<open>False\<close> and raises what \<open>exists()\<close>
  raises.
\<close>

lemma pick_name_at_first:
  assumes k: "path_exists E w (nth_candidate base ext k) \<noteq> Inr True"
    and below: "\<forall>j<k. path_exists E w (nth_candidate base ext j) = Inr True"
  shows "pick_name E w base ext =
     (case path_exists E w (nth_candidate base ext k) of
        Inl e \<Rightarrow> Inl e
      | Inr b \<Rightarrow> Inr (nth_candidate base ext k))"
proof (cases k)
  case 0
  with k have "path_exists E w (base @ ext) \<noteq> Inr True" by (simp add: nth_candidate_def)
  from find_free_stops[OF this, of base ext 1] have p:
    "pick_name E w base ext =
       (case path_exists E w (base @ ext) of Inl e \<Rightarrow> Inl e | Inr b \<Rightarrow> Inr (base @ ext))"
    by (simp add: pick_name_def)
  from 0 have nc: "nth_candidate base ext k = base @ ext" by (simp add: nth_candidate_def)
  show ?thesis unfolding nc by (rule p)
next
  case (Suc n)
  from below Suc have b0: "path_exists E w (base @ ext) = Inr True"
    by (auto simp: nth_candidate_def dest: spec[of _ 0])
  have bj: "\<forall>j. 1 \<le> j \<and> j < k \<longrightarrow> path_exists E w (candidate base ext j) = Inr True"
  proof (intro allI impI)
    fix j assume j: "1 \<le> j \<and> j < k"
    with below have "path_exists E w (nth_candidate base ext j) = Inr True" by simp
    with j show "path_exists E w (candidate base ext j) = Inr True"
      by (simp add: nth_candidate_def)
  qed
  from k Suc have kk: "path_exists E w (candidate base ext k) \<noteq> Inr True"
    by (simp add: nth_candidate_def)
  from Suc have "1 \<le> k" by simp
  from find_free_first[OF kk this bj b0] have p:
    "pick_name E w base ext =
       (case path_exists E w (candidate base ext k) of
          Inl e \<Rightarrow> Inl e
        | Inr b \<Rightarrow> Inr (candidate base ext k))"
    by (simp add: pick_name_def)
  from Suc have nc: "nth_candidate base ext k = candidate base ext k"
    by (simp add: nth_candidate_def)
  show ?thesis unfolding nc by (rule p)
qed

lemma pick_name_char:
  "\<exists>k. path_exists E w (nth_candidate base ext k) \<noteq> Inr True
       \<and> (\<forall>j<k. path_exists E w (nth_candidate base ext j) = Inr True)
       \<and> pick_name E w base ext =
           (case path_exists E w (nth_candidate base ext k) of
              Inl e \<Rightarrow> Inl e
            | Inr b \<Rightarrow> Inr (nth_candidate base ext k))"
proof -
  let ?P = "\<lambda>k. path_exists E w (nth_candidate base ext k) \<noteq> Inr True"
  from some_candidate_absent[of E w base ext] have "\<exists>k. ?P k" .
  then obtain k where k: "?P k" and least: "\<forall>j<k. \<not> ?P j"
    using exists_least_iff[of ?P] by blast
  from least have below: "\<forall>j<k. path_exists E w (nth_candidate base ext j) = Inr True" by simp
  from pick_name_at_first[OF k below] k below show ?thesis by blast
qed

lemma pick_name_returns:
  assumes "pick_name E w base ext = Inr p"
  shows "path_exists E w p = Inr False
    \<and> (\<exists>k. p = nth_candidate base ext k
          \<and> (\<forall>j<k. path_exists E w (nth_candidate base ext j) = Inr True))"
proof -
  from pick_name_char[of E w base ext] obtain k where
    k: "path_exists E w (nth_candidate base ext k) \<noteq> Inr True"
    and below: "\<forall>j<k. path_exists E w (nth_candidate base ext j) = Inr True"
    and eq: "pick_name E w base ext =
           (case path_exists E w (nth_candidate base ext k) of
              Inl e \<Rightarrow> Inl e
            | Inr b \<Rightarrow> Inr (nth_candidate base ext k))" by blast
  from eq assms k have "p = nth_candidate base ext k \<and> path_exists E w p = Inr False"
    by (cases "path_exists E w (nth_candidate base ext k)") auto
  with below show ?thesis by blast
qed

lemma pick_name_raises:
  assumes "pick_name E w base ext = Inl e"
  shows "\<exists>k. path_exists E w (nth_candidate base ext k) = Inl e
          \<and> (\<forall>j<k. path_exists E w (nth_candidate base ext j) = Inr True)"
proof -
  from pick_name_char[of E w base ext] obtain k where
    k: "path_exists E w (nth_candidate base ext k) \<noteq> Inr True"
    and below: "\<forall>j<k. path_exists E w (nth_candidate base ext j) = Inr True"
    and eq: "pick_name E w base ext =
           (case path_exists E w (nth_candidate base ext k) of
              Inl e \<Rightarrow> Inl e
            | Inr b \<Rightarrow> Inr (nth_candidate base ext k))" by blast
  from eq assms have "path_exists E w (nth_candidate base ext k) = Inl e"
    by (cases "path_exists E w (nth_candidate base ext k)") auto
  with below show ?thesis by blast
qed

lemma pick_name_absent:
  assumes "pick_name E w base ext = Inr p"
  shows "rpath E w p \<notin> set (map fst (store w))"
  using pick_name_returns[OF assms] by (auto simp: path_exists_def split: option.splits)

text \<open>What one write attempt changes.\<close>

lemma write_file_world:
  assumes "write_file E w p s = (r, w', s')"
  shows "links w' = links w \<and> requests w' = requests w \<and> opened w' = opened w @ [p]
    \<and> (store w' = store w \<or> (\<exists>b. store w' = AList.update (rpath E w p) b (store w)))"
proof (cases "os_write E w p (pending s)")
  case Completed
  with assms show ?thesis by (cases "consumed s") (auto simp: write_file_def Let_def)
next
  case (OpenError e)
  with assms show ?thesis by (auto simp: write_file_def Let_def)
next
  case (LoopError e n left)
  with assms show ?thesis by (cases "consumed s") (auto simp: write_file_def Let_def)
next
  case (CloseError e left)
  with assms show ?thesis by (cases "consumed s") (auto simp: write_file_def Let_def)
qed

lemma write_file_rpath:
  assumes "write_file E w p s = (r, w', s')"
  shows "rpath E w' n = rpath E w n"
  using write_file_world[OF assms] by (simp add: rpath_def)

lemma write_file_keeps:
  assumes wf: "write_file E w p s = (r, w', s')"
    and fresh: "rpath E w p \<notin> set (map fst (store w))"
    and q: "q \<in> set (map fst (store w))"
  shows "map_of (store w') q = map_of (store w) q \<and> q \<in> set (map fst (store w'))"
proof -
  from fresh q have ne: "q \<noteq> rpath E w p" by blast
  from write_file_world[OF wf]
  have "store w' = store w \<or> (\<exists>b. store w' = AList.update (rpath E w p) b (store w))" by blast
  then show ?thesis
  proof
    assume "store w' = store w"
    with q show ?thesis by simp
  next
    assume "\<exists>b. store w' = AList.update (rpath E w p) b (store w)"
    then obtain b where b: "store w' = AList.update (rpath E w p) b (store w)" by blast
    have "map_of (store w') q = map_of (store w) q" using ne by (simp add: b update_conv')
    moreover have "q \<in> set (map fst (store w'))" using q by (simp add: b dom_update)
    ultimately show ?thesis by blast
  qed
qed

lemma write_file_success:
  assumes "write_file E w p s = (None, w', s')"
  shows "map_of (store w') (rpath E w p) = Some (concat (pending s))
    \<and> rpath E w p \<in> set (map fst (store w'))
    \<and> s' = \<lparr>pending = [], consumed = True\<rparr> \<and> \<not> consumed s
    \<and> os_write E w p (pending s) = Completed"
proof (cases "os_write E w p (pending s)")
  case Completed
  with assms show ?thesis
    by (cases "consumed s") (auto simp: write_file_def Let_def update_conv' dom_update)
next
  case (OpenError e)
  with assms show ?thesis by (auto simp: write_file_def Let_def)
next
  case (LoopError e n left)
  with assms show ?thesis by (cases "consumed s") (auto simp: write_file_def Let_def)
next
  case (CloseError e left)
  with assms show ?thesis by (cases "consumed s") (auto simp: write_file_def Let_def)
qed


text \<open>The steps of \<open>download_icon\<close> and of \<open>store_icon\<close>.\<close>

lemma download_icon_reaches_writer:
  assumes "get_stripped L item (ustr ''title'') = Inr title"
    and "get_stripped L item (ustr ''url'') = Inr url"
    and "get_stripped L item (ustr ''icon'') = Inr icon_url"
    and "icon_url \<noteq> []"
    and "base_name_of L title url = Inr base"
    and "http_get E icon_url = Inr resp"
    and "status_code resp = 200"
  shows "download_icon L E w item
       = store_icon L E (w\<lparr>requests := requests w @ [icon_url]\<rparr>) base resp icon_url"
  using assms by (simp add: download_icon_def Let_def)

lemma store_icon_first_search_raises:
  assumes "choose_extension L (content_type resp) icon_url = Inr ext"
    and "pick_name E w0 base ext = Inl e"
  shows "store_icon L E w0 base resp icon_url = (Inl e, w0)"
  using assms by (simp add: store_icon_def)

lemma store_icon_first_write:
  assumes "choose_extension L (content_type resp) icon_url = Inr ext"
    and "pick_name E w0 base ext = Inr p1"
    and "write_file E w0 p1 \<lparr>pending = chunks resp, consumed = False\<rparr> = (None, w1, s1)"
  shows "store_icon L E w0 base resp icon_url = (Inr (True, rpath E w1 p1, - 1), w1)"
  using assms by (simp add: store_icon_def)

lemma store_icon_other_error:
  assumes "choose_extension L (content_type resp) icon_url = Inr ext"
    and "pick_name E w0 base ext = Inr p1"
    and "write_file E w0 p1 \<lparr>pending = chunks resp, consumed = False\<rparr> = (Some e, w1, s1)"
    and "\<not> is_OSError e"
  shows "store_icon L E w0 base resp icon_url = (Inr (False, ustr ''error:'' @ exn_str e, - 1), w1)"
  using assms by (simp add: store_icon_def)

lemma store_icon_fallback:
  assumes "choose_extension L (content_type resp) icon_url = Inr ext"
    and "pick_name E w0 base ext = Inr p1"
    and "write_file E w0 p1 \<lparr>pending = chunks resp, consumed = False\<rparr> = (Some e, w1, s1)"
    and "is_OSError e"
  shows "store_icon L E w0 base resp icon_url =
     (case pick_name E w1 (ascii_fallback_name L base 80) ext of
        Inl e' \<Rightarrow> (Inl e', w1)
      | Inr p2 \<Rightarrow>
          (case write_file E w1 p2 s1 of
             (None, w2, s2) \<Rightarrow> (Inr (True, rpath E w2 p2, - 1), w2)
           | (Some e2, w2, s2) \<Rightarrow> (Inr (False, ustr ''write_error:'' @ exn_str e2, - 1), w2)))"
  using assms by (simp add: store_icon_def Let_def)

text \<open>The world after \<open>store_icon\<close> is the given one or the one left by a write attempt.\<close>

lemma store_icon_world:
  "snd (store_icon L E w base resp url) = w
   \<or> (\<exists>ext p1 r1 w1 s1.
         pick_name E w base ext = Inr p1
         \<and> write_file E w p1 \<lparr>pending = chunks resp, consumed = False\<rparr> = (r1, w1, s1)
         \<and> (snd (store_icon L E w base resp url) = w1
            \<or> (\<exists>p2 r2 w2 s2.
                  pick_name E w1 (ascii_fallback_name L base 80) ext = Inr p2
                  \<and> write_file E w1 p2 s1 = (r2, w2, s2)
                  \<and> snd (store_icon L E w base resp url) = w2)))"
proof (cases "choose_extension L (content_type resp) url")
  case (Inl e)
  then show ?thesis by (simp add: store_icon_def)
next
  case (Inr ext)
  note ce = Inr
  show ?thesis
  proof (cases "pick_name E w base ext")
    case (Inl e)
    with ce show ?thesis by (simp add: store_icon_def)
  next
    case (Inr p1)
    note pn = Inr
    obtain r1 w1 s1 where
      wf: "write_file E w p1 \<lparr>pending = chunks resp, consumed = False\<rparr> = (r1, w1, s1)"
      by (metis prod_cases3)
    have "snd (store_icon L E w base resp url) = w1
       \<or> (\<exists>p2 r2 w2 s2.
             pick_name E w1 (ascii_fallback_name L base 80) ext = Inr p2
             \<and> write_file E w1 p2 s1 = (r2, w2, s2)
             \<and> snd (store_icon L E w base resp url) = w2)"
    proof (cases r1)
      case None
      with store_icon_first_write[OF ce pn] wf show ?thesis by simp
    next
      case (Some e)
      note r1 = Some
      show ?thesis
      proof (cases "is_OSError e")
        case False
        from store_icon_other_error[OF ce pn _ False] wf r1 show ?thesis by simp
      next
        case True
        from wf r1 have wf': "write_file E w p1 \<lparr>pending = chunks resp, consumed = False\<rparr>
            = (Some e, w1, s1)" by simp
        note fb = store_icon_fallback[OF ce pn wf' True]
        show ?thesis
        proof (cases "pick_name E w1 (ascii_fallback_name L base 80) ext")
          case (Inl e')
          with fb show ?thesis by simp
        next
          case (Inr p2)
          obtain r2 w2 s2 where wf2: "write_file E w1 p2 s1 = (r2, w2, s2)"
            by (metis prod_cases3)
          from fb Inr wf2 have "snd (store_icon L E w base resp url) = w2"
            by (cases r2) simp_all
          with Inr wf2 show ?thesis by blast
        qed
      qed
    qed
    with pn wf show ?thesis by blast
  qed
qed

lemma store_icon_keeps:
  assumes q: "q \<in> set (map fst (store w))"
  shows "map_of (store (snd (store_icon L E w base resp url))) q = map_of (store w) q"
proof -
  from store_icon_world[of L E w base resp url]
  show ?thesis
  proof (elim disjE exE conjE)
    assume "snd (store_icon L E w base resp url) = w"
    then show ?thesis by simp
  next
    fix ext p1 r1 w1 s1
    assume pn: "pick_name E w base ext = Inr p1"
      and wf: "write_file E w p1 \<lparr>pending = chunks resp, consumed = False\<rparr> = (r1, w1, s1)"
      and "snd (store_icon L E w base resp url) = w1"
    with write_file_keeps[OF wf pick_name_absent[OF pn] q] show ?thesis by simp
  next
    fix ext p1 r1 w1 s1 p2 r2 w2 s2
    assume pn: "pick_name E w base ext = Inr p1"
      and wf: "write_file E w p1 \<lparr>pending = chunks resp, consumed = False\<rparr> = (r1, w1, s1)"
      and pn2: "pick_name E w1 (ascii_fallback_name L base 80) ext = Inr p2"
      and wf2: "write_file E w1 p2 s1 = (r2, w2, s2)"
      and res: "snd (store_icon L E w base resp url) = w2"
    from write_file_keeps[OF wf pick_name_absent[OF pn] q]
    have k1: "map_of (store w1) q = map_of (store w) q" and q1: "q \<in> set (map fst (store w1))"
      by blast+
    from write_file_keeps[OF wf2 pick_name_absent[OF pn2] q1]
    have "map_of (store w2) q = map_of (store w1) q" by blast
    with k1 res show ?thesis by simp
  qed
qed

lemma download_icon_world:
  "snd (download_icon L E w item) = w
   \<or> (\<exists>u. snd (download_icon L E w item) = w\<lparr>requests := requests w @ [u]\<rparr>)
   \<or> (\<exists>u b r. snd (download_icon L E w item)
         = snd (store_icon L E (w\<lparr>requests := requests w @ [u]\<rparr>) b r u))"
  by (auto simp: download_icon_def Let_def split: sum.splits)

lemma download_icon_keeps:
  assumes q: "q \<in> set (map fst (store w))"
  shows "map_of (store (snd (download_icon L E w item))) q = map_of (store w) q"
proof -
  have "map_of (store (snd (store_icon L E (w\<lparr>requests := requests w @ [u]\<rparr>) b r u))) q
      = map_of (store w) q" for u b r
    using store_icon_keeps[of q "w\<lparr>requests := requests w @ [u]\<rparr>" L E b r u] q by simp
  with download_icon_world[of L E w item] show ?thesis by (elim disjE exE) auto
qed

text \<open>Two searches with a successful write between them.\<close>

lemma second_search_is_later:
  assumes p1: "pick_name E w base ext = Inr p1"
    and wf: "write_file E w p1 s = (None, w1, s1)"
    and p2: "pick_name E w1 base ext = Inr p2"
  shows "p2 \<noteq> p1 \<and> rpath E w1 p2 \<noteq> rpath E w1 p1
    \<and> (\<exists>k1 k2. k1 < k2 \<and> p1 = nth_candidate base ext k1 \<and> p2 = nth_candidate base ext k2)"
proof -
  have rp: "rpath E w1 n = rpath E w n" for n by (rule write_file_rpath[OF wf])
  from write_file_success[OF wf] have in1: "rpath E w p1 \<in> set (map fst (store w1))" by blast
  from pick_name_absent[OF p2] have out2: "rpath E w1 p2 \<notin> set (map fst (store w1))" .
  have "rpath E w p2 \<notin> set (map fst (store w1))" using out2 unfolding rp .
  with in1 have "rpath E w p2 \<noteq> rpath E w p1" by metis
  then have ne: "rpath E w1 p2 \<noteq> rpath E w1 p1" unfolding rp .
  then have nep: "p2 \<noteq> p1" by metis
  from pick_name_returns[OF p1] obtain k1 where
    k1: "p1 = nth_candidate base ext k1"
    and b1: "\<forall>j<k1. path_exists E w (nth_candidate base ext j) = Inr True" by blast
  from pick_name_returns[OF p2] obtain k2 where
    k2: "p2 = nth_candidate base ext k2" by blast
  have "k1 < k2"
  proof (rule ccontr)
    assume "\<not> k1 < k2"
    with nep k1 k2 have "k2 < k1" by (cases "k2 = k1") auto
    with b1 have "path_exists E w (nth_candidate base ext k2) = Inr True" by simp
    then have "rpath E w p2 \<in> set (map fst (store w))"
      by (auto simp: k2 path_exists_def split: option.splits)
    moreover have "rpath E w p1 \<notin> set (map fst (store w))" by (rule pick_name_absent[OF p1])
    ultimately have "rpath E w p2 \<in> set (map fst (store w1))"
      using write_file_keeps[OF wf] by blast
    then have "rpath E w1 p2 \<in> set (map fst (store w1))" unfolding rp .
    with out2 show False by metis
  qed
  with ne nep k1 k2 show ?thesis by blast
qed

text \<open>
  Claim C4, as amended. Whenever the name search returns, the name it selects does not
  exist at the time of the selection, in the sense of \<open>Path.exists()\<close>, which follows
  symbolic links; and it is the first of \<open>base.ext\<close>, \<open>base_1.ext\<close>, \<open>base_2.ext\<close>, ... for
  which \<open>exists()\<close> returns \<open>False\<close>, every earlier one existing. The search returns that
  name whenever \<open>exists()\<close> returns \<open>False\<close> for it and \<open>True\<close> for every earlier one, and
  some candidate does not exist. Two sequential successful writes for the same base name
  and extension go to two distinct files, the second under a later name of the
  sequence, and each file holds what was written to it. No file that exists when
  \<open>download_icon\<close> starts is changed by it. (This is the sequential reading; tasks that
  run at the same time are not covered.)
\<close>

theorem writer_picks_first_absent_name:
  "(\<forall>p. pick_name E w base ext = Inr p
        \<longrightarrow> path_exists E w p = Inr False
          \<and> (\<exists>k. p = nth_candidate base ext k
                \<and> (\<forall>j<k. path_exists E w (nth_candidate base ext j) = Inr True)))
   \<and> (\<forall>k. path_exists E w (nth_candidate base ext k) = Inr False
            \<and> (\<forall>j<k. path_exists E w (nth_candidate base ext j) = Inr True)
        \<longrightarrow> pick_name E w base ext = Inr (nth_candidate base ext k))
   \<and> (\<exists>k. path_exists E w (nth_candidate base ext k) \<noteq> Inr True)
   \<and> (\<forall>p1 w1 s1 p2 w2 s2.
          pick_name E w base ext = Inr p1 \<and> write_file E w p1 s = (None, w1, s1)
          \<and> pick_name E w1 base ext = Inr p2 \<and> write_file E w1 p2 t = (None, w2, s2)
        \<longrightarrow> p2 \<noteq> p1 \<and> rpath E w2 p2 \<noteq> rpath E w2 p1
          \<and> (\<exists>k1 k2. k1 < k2 \<and> p1 = nth_candidate base ext k1 \<and> p2 = nth_candidate base ext k2)
          \<and> map_of (store w2) (rpath E w2 p1) = Some (concat (pending s))
          \<and> map_of (store w2) (rpath E w2 p2) = Some (concat (pending t)))
   \<and> (\<forall>q\<in>set (map fst (store w)).
         map_of (store (snd (download_icon L E w item))) q = map_of (store w) q)"
proof -
  have a: "\<forall>p. pick_name E w base ext = Inr p
        \<longrightarrow> path_exists E w p = Inr False
          \<and> (\<exists>k. p = nth_candidate base ext k
                \<and> (\<forall>j<k. path_exists E w (nth_candidate base ext j) = Inr True))"
    using pick_name_returns[of E w base ext] by blast
  have b: "pick_name E w base ext = Inr (nth_candidate base ext k)"
    if "path_exists E w (nth_candidate base ext k) = Inr False"
      and "\<forall>j<k. path_exists E w (nth_candidate base ext j) = Inr True" for k
  proof -
    from that(1) have "path_exists E w (nth_candidate base ext k) \<noteq> Inr True" by simp
    from pick_name_at_first[OF this that(2)] that(1) show ?thesis by simp
  qed
  have c: "\<exists>k. path_exists E w (nth_candidate base ext k) \<noteq> Inr True"
    by (rule some_candidate_absent)
  have d: "p2 \<noteq> p1 \<and> rpath E w2 p2 \<noteq> rpath E w2 p1
          \<and> (\<exists>k1 k2. k1 < k2 \<and> p1 = nth_candidate base ext k1 \<and> p2 = nth_candidate base ext k2)
          \<and> map_of (store w2) (rpath E w2 p1) = Some (concat (pending s))
          \<and> map_of (store w2) (rpath E w2 p2) = Some (concat (pending t))"
    if p1: "pick_name E w base ext = Inr p1" and wf1: "write_file E w p1 s = (None, w1, s1)"
      and p2: "pick_name E w1 base ext = Inr p2" and wf2: "write_file E w1 p2 t = (None, w2, s2)"
    for p1 w1 s1 p2 w2 s2
  proof -
    have r1: "rpath E w1 n = rpath E w n" for n by (rule write_file_rpath[OF wf1])
    have r2: "rpath E w2 n = rpath E w1 n" for n by (rule write_file_rpath[OF wf2])
    from second_search_is_later[OF p1 wf1 p2] have
      ne: "p2 \<noteq> p1" and nr: "rpath E w1 p2 \<noteq> rpath E w1 p1"
      and ks: "\<exists>k1 k2. k1 < k2 \<and> p1 = nth_candidate base ext k1 \<and> p2 = nth_candidate base ext k2"
      by blast+
    from write_file_success[OF wf1] have
      s1: "map_of (store w1) (rpath E w p1) = Some (concat (pending s))"
      and i1: "rpath E w p1 \<in> set (map fst (store w1))" by blast+
    from write_file_keeps[OF wf2 pick_name_absent[OF p2] i1]
    have "map_of (store w2) (rpath E w p1) = map_of (store w1) (rpath E w p1)" by blast
    with s1 have f1: "map_of (store w2) (rpath E w2 p1) = Some (concat (pending s))"
      by (simp add: r1 r2)
    from write_file_success[OF wf2]
    have "map_of (store w2) (rpath E w1 p2) = Some (concat (pending t))" by blast
    then have f2: "map_of (store w2) (rpath E w2 p2) = Some (concat (pending t))"
      by (simp add: r2)
    from nr have nr2: "rpath E w2 p2 \<noteq> rpath E w2 p1" by (simp add: r2)
    show ?thesis by (rule conjI[OF ne conjI[OF nr2 conjI[OF ks conjI[OF f1 f2]]]])
  qed
  have b': "\<forall>k. path_exists E w (nth_candidate base ext k) = Inr False
            \<and> (\<forall>j<k. path_exists E w (nth_candidate base ext j) = Inr True)
        \<longrightarrow> pick_name E w base ext = Inr (nth_candidate base ext k)"
  proof (intro allI impI, elim conjE)
    fix k
    assume "path_exists E w (nth_candidate base ext k) = Inr False"
      and "\<forall>j<k. path_exists E w (nth_candidate base ext j) = Inr True"
    then show "pick_name E w base ext = Inr (nth_candidate base ext k)" by (rule b)
  qed
  have d': "\<forall>p1 w1 s1 p2 w2 s2.
          pick_name E w base ext = Inr p1 \<and> write_file E w p1 s = (None, w1, s1)
          \<and> pick_name E w1 base ext = Inr p2 \<and> write_file E w1 p2 t = (None, w2, s2)
        \<longrightarrow> p2 \<noteq> p1 \<and> rpath E w2 p2 \<noteq> rpath E w2 p1
          \<and> (\<exists>k1 k2. k1 < k2 \<and> p1 = nth_candidate base ext k1 \<and> p2 = nth_candidate base ext k2)
          \<and> map_of (store w2) (rpath E w2 p1) = Some (concat (pending s))
          \<and> map_of (store w2) (rpath E w2 p2) = Some (concat (pending t))"
  proof (intro allI impI, elim conjE)
    fix p1 w1 s1 p2 w2 s2
    assume "pick_name E w base ext = Inr p1" and "write_file E w p1 s = (None, w1, s1)"
      and "pick_name E w1 base ext = Inr p2" and "write_file E w1 p2 t = (None, w2, s2)"
    then show "p2 \<noteq> p1 \<and> rpath E w2 p2 \<noteq> rpath E w2 p1
          \<and> (\<exists>k1 k2. k1 < k2 \<and> p1 = nth_candidate base ext k1 \<and> p2 = nth_candidate base ext k2)
          \<and> map_of (store w2) (rpath E w2 p1) = Some (concat (pending s))
          \<and> map_of (store w2) (rpath E w2 p2) = Some (concat (pending t))" by (rule d)
  qed
  have e: "\<forall>q\<in>set (map fst (store w)).
         map_of (store (snd (download_icon L E w item))) q = map_of (store w) q"
  proof (rule ballI)
    fix q assume "q \<in> set (map fst (store w))"
    then show "map_of (store (snd (download_icon L E w item))) q = map_of (store w) q"
      by (rule download_icon_keeps)
  qed
  show ?thesis by (rule conjI[OF a conjI[OF b' conjI[OF c conjI[OF d' e]]]])
qed

theorem writer_picks_first_absent_name_witness:
  "path_exists sample_env used_world (ustr ''Example.gif'') = Inr True
   \<and> path_exists sample_env used_world (ustr ''Example_1.gif'') = Inr False
   \<and> pick_name sample_env used_world (ustr ''Example'') (ustr ''.gif'') = Inr (ustr ''Example_1.gif'')
   \<and> write_file sample_env used_world (ustr ''Example_1.gif'')
        \<lparr>pending = [[71, 73], [70]], consumed = False\<rparr>
      = (None,
         used_world\<lparr>store := [(ustr ''/icons/Example.gif'', [1, 2, 3]),
                                (ustr ''/icons/Example_1.gif'', [71, 73, 70])],
                     opened := [ustr ''Example_1.gif'']\<rparr>,
         \<lparr>pending = [], consumed = True\<rparr>)
   \<and> pick_name sample_env
        (used_world\<lparr>store := [(ustr ''/icons/Example.gif'', [1, 2, 3]),
                               (ustr ''/icons/Example_1.gif'', [71, 73, 70])],
                    opened := [ustr ''Example_1.gif'']\<rparr>)
        (ustr ''Example'') (ustr ''.gif'') = Inr (ustr ''Example_2.gif'')
   \<and> write_file sample_env
        (used_world\<lparr>store := [(ustr ''/icons/Example.gif'', [1, 2, 3]),
                               (ustr ''/icons/Example_1.gif'', [71, 73, 70])],
                    opened := [ustr ''Example_1.gif'']\<rparr>)
        (ustr ''Example_2.gif'') \<lparr>pending = [[80], [78, 71]], consumed = False\<rparr>
      = (None,
         used_world\<lparr>store := [(ustr ''/icons/Example.gif'', [1, 2, 3]),
                                (ustr ''/icons/Example_1.gif'', [71, 73, 70]),
                                (ustr ''/icons/Example_2.gif'', [80, 78, 71])],
                     opened := [ustr ''Example_1.gif'', ustr ''Example_2.gif'']\<rparr>,
         \<lparr>pending = [], consumed = True\<rparr>)
   \<and> ustr ''Example_2.gif'' \<noteq> ustr ''Example_1.gif''
   \<and> ustr ''/icons/Example.gif'' \<in> set (map fst (store used_world))
   \<and> map_of (store (snd (download_icon sample_lib sample_env used_world (sample_items ! 0))))
        (ustr ''/icons/Example.gif'') = Some [1, 2, 3]
   \<and> fst (download_icon sample_lib sample_env used_world (sample_items ! 0))
        = Inr (True, ustr ''/icons/Example_1.gif'', - 1)"
proof -
  let ?b1 = "\<lparr>pending = [[71, 73], [70]], consumed = False\<rparr>"
  let ?b2 = "\<lparr>pending = [[80], [78, 71]], consumed = False\<rparr>"
  let ?w1 = "used_world\<lparr>store := [(ustr ''/icons/Example.gif'', [1, 2, 3]),
                                (ustr ''/icons/Example_1.gif'', [71, 73, 70])],
                     opened := [ustr ''Example_1.gif'']\<rparr>"
  let ?w2 = "used_world\<lparr>store := [(ustr ''/icons/Example.gif'', [1, 2, 3]),
                                (ustr ''/icons/Example_1.gif'', [71, 73, 70]),
                                (ustr ''/icons/Example_2.gif'', [80, 78, 71])],
                     opened := [ustr ''Example_1.gif'', ustr ''Example_2.gif'']\<rparr>"
  let ?done = "\<lparr>pending = [], consumed = True\<rparr>"
  have x0: "path_exists sample_env used_world (ustr ''Example.gif'') = Inr True" by code_simp
  have x1: "path_exists sample_env used_world (ustr ''Example_1.gif'') = Inr False" by code_simp
  have a: "pick_name sample_env used_world (ustr ''Example'') (ustr ''.gif'')
      = Inr (ustr ''Example_1.gif'')" by code_simp
  have b: "write_file sample_env used_world (ustr ''Example_1.gif'') ?b1 = (None, ?w1, ?done)"
    by code_simp
  have c: "pick_name sample_env ?w1 (ustr ''Example'') (ustr ''.gif'')
      = Inr (ustr ''Example_2.gif'')" by code_simp
  have d: "write_file sample_env ?w1 (ustr ''Example_2.gif'') ?b2 = (None, ?w2, ?done)"
    by code_simp
  have q: "ustr ''/icons/Example.gif'' \<in> set (map fst (store used_world))" by code_simp
  have v: "map_of (store used_world) (ustr ''/icons/Example.gif'') = Some [1, 2, 3]" by code_simp
  have r: "fst (download_icon sample_lib sample_env used_world (sample_items ! 0))
        = Inr (True, ustr ''/icons/Example_1.gif'', - 1)" by code_simp
  note t = writer_picks_first_absent_name[of sample_env used_world "ustr ''Example''"
      "ustr ''.gif''" ?b1 ?b2 sample_lib "sample_items ! 0"]
  note seq = t[THEN conjunct2, THEN conjunct2, THEN conjunct2, THEN conjunct1, rule_format,
      OF conjI[OF a conjI[OF b conjI[OF c d]]]]
  from seq have ne: "ustr ''Example_2.gif'' \<noteq> ustr ''Example_1.gif''" by (rule conjunct1)
  note frame = t[THEN conjunct2, THEN conjunct2, THEN conjunct2, THEN conjunct2, rule_format, OF q]
  have k: "map_of (store (snd (download_icon sample_lib sample_env used_world (sample_items ! 0))))
        (ustr ''/icons/Example.gif'') = Some [1, 2, 3]"
    by (rule trans[OF frame v])
  show ?thesis
    by (rule conjI[OF x0 conjI[OF x1 conjI[OF a conjI[OF b conjI[OF c conjI[OF d
          conjI[OF ne conjI[OF q conjI[OF k r]]]]]]]]])
qed

text \<open>
  Claim C4 as stated fails: in a directory whose entry \<open>Example.gif\<close> is a symbolic link
  to a path that does not exist, the name \<open>Example.gif\<close> is occupied, yet it is the one
  selected, because \<open>exists()\<close> follows the link; the icon is written through the link and
  the path returned is the link's target.
\<close>

theorem dangling_link_counterexample:
  "is_entry sample_env link_world (ustr ''Example.gif'')
   \<and> nth_candidate (ustr ''Example'') (ustr ''.gif'') 0 = ustr ''Example.gif''
   \<and> pick_name sample_env link_world (ustr ''Example'') (ustr ''.gif'') = Inr (ustr ''Example.gif'')
   \<and> fst (download_icon sample_lib sample_env link_world (sample_items ! 0))
        = Inr (True, ustr ''/tmp/elsewhere.gif'', - 1)
   \<and> opened (snd (download_icon sample_lib sample_env link_world (sample_items ! 0)))
        = [ustr ''Example.gif'']"
  by code_simp




text \<open>The length in bytes of the long directory path.\<close>

lemma utf8_length_append: "utf8_length (a @ b) = utf8_length a + utf8_length b"
  by (simp add: utf8_length_def)









text \<open>
  The first search stands before the \<open>try\<close> (line 160): for a title of 84 letters of
  3 bytes each the name \<open>title.gif\<close> has 256 bytes, \<open>exists()\<close> raises, and the task raises
  after the request has been made and before anything is opened.
\<close>

lemma utf8_length_replicate:
  "utf8_length (replicate n c) =
     n * (if c < 128 then 1 else if c < 2048 then 2 else if c < 65536 then 3 else 4)"
  by (induction n) (simp_all add: utf8_length_def)

lemma first_search_raises:
  "download_icon sample_lib sample_env empty_world long_item
     = (Inl (OSError (ustr ''File name too long'')),
        empty_world\<lparr>requests := [ustr ''http://example.com/favicon.ico'']\<rparr>)"
proof -
  let ?t = "replicate 84 2048 :: ustring"
  let ?icon = "ustr ''http://example.com/favicon.ico''"
  let ?resp = "\<lparr>status_code = 200, content_type = Some (ustr ''image/gif''),
                chunks = [[71, 73], [70]]\<rparr>"
  let ?gif = "ustr ''.gif''"
  let ?w0 = "empty_world\<lparr>requests := requests empty_world @ [?icon]\<rparr>"
  have k: "keep_unicode sample_lib 2048" by code_simp
  then have allk: "\<forall>c\<in>set ?t. keep_unicode sample_lib c" by simp
  have ne: "?t \<noteq> []" by simp
  have len: "int (length ?t) \<le> 120" by simp
  have sf: "safe_filename_unicode sample_lib ?t 120 = ?t"
    by (rule safe_filename_unicode_fixed[OF unicode_ok_sample unquote_ok_sample ne allk len])
  have "\<forall>c\<in>set ?t. \<not> isspace sample_lib c"
    using allk keep_unicode_not_space[OF unicode_ok_sample] by blast
  then have sp: "strip sample_lib ?t = ?t" by (rule strip_id)
  have si: "strip sample_lib ?icon = ?icon" by code_simp
  have k1: "ustr ''url'' \<noteq> ustr ''title''" "ustr ''url'' \<noteq> ustr ''icon''"
    "ustr ''icon'' \<noteq> ustr ''title''" by (simp_all add: ustr_def)
  have i0: "?icon \<noteq> []" by (simp add: ustr_def)
  have h1: "get_stripped sample_lib long_item (ustr ''title'') = Inr ?t"
    using ne by (simp add: get_stripped_def long_item_def sp)
  have h2: "get_stripped sample_lib long_item (ustr ''url'') = Inr []"
    using k1 by (simp add: get_stripped_def long_item_def)
  have h3: "get_stripped sample_lib long_item (ustr ''icon'') = Inr ?icon"
    using k1 i0 by (simp add: get_stripped_def long_item_def si)
  have h5: "base_name_of sample_lib ?t [] = Inr ?t"
    using ne by (simp add: base_name_of_def sf)
  have h6: "http_get sample_env ?icon = Inr ?resp" by (simp add: sample_env_def posix_env_def)
  have h7: "status_code ?resp = 200" by simp
  have h8: "choose_extension sample_lib (content_type ?resp) ?icon = Inr ?gif" by code_simp
  have g: "utf8_length ?gif = 4" by code_simp
  have "utf8_length (?t @ ?gif) = 256"
    by (simp add: utf8_length_append utf8_length_replicate g)
  then have "too_long (ustr ''/icons'') (?t @ ?gif)" by (simp add: too_long_def)
  then have e0: "path_exists sample_env ?w0 (nth_candidate ?t ?gif 0)
      = Inl (OSError (ustr ''File name too long''))"
    by (simp add: path_exists_def sample_env_def posix_env_def nth_candidate_def)
  then have "path_exists sample_env ?w0 (nth_candidate ?t ?gif 0) \<noteq> Inr True" by simp
  from pick_name_at_first[OF this] e0
  have p: "pick_name sample_env ?w0 ?t ?gif = Inl (OSError (ustr ''File name too long''))"
    by simp
  have w0: "?w0 = empty_world\<lparr>requests := [?icon]\<rparr>" by (simp add: empty_world_def)
  note d = download_icon_reaches_writer[OF h1 h2 h3 i0 h5 h6 h7, of empty_world]
  note s = store_icon_first_search_raises[OF h8 p]
  have "download_icon sample_lib sample_env empty_world long_item
      = (Inl (OSError (ustr ''File name too long'')), ?w0)"
    unfolding d by (rule s)
  then show ?thesis unfolding w0 .
qed

end
